theory Spec2Isabelle
  imports Complex_Main
begin

section \<open>Errors\<close>

text \<open>
  The C++ sources have no checked errors of their own. Two kinds of failure are made
  explicit here: a read through an iterator that is outside its vector (undefined behaviour
  in C++, \<open>OutOfBounds\<close> here), and the kernel's contract violations.
\<close>

datatype error = OutOfBounds | TimeReversal | AlreadyRunning

section \<open>EventReport (microsimulation.h)\<close>

text \<open>
  \<open>EventReport<Tstate, Tevent, T>\<close> with \<open>T\<close> read as an exact ordered field
  (\<open>real\<close>); the drivers instantiate it with \<open>double\<close>, whose rounding is not modelled.
  The nested maps \<open>map<Tstate, map<T, V>>\<close> are only ever accessed as
  \<open>m[state][age]\<close>, which creates both levels at once, so they are kept as one map on
  the pair of keys. \<open>operator[]\<close> on a missing key inserts the value \<open>0\<close>. The
  \<open>int\<close> counters are unbounded integers here.
\<close>

record ('s, 'e) EventReport =
  rep_max :: real
  rep_partition :: "real list"
  rep_prev :: "'s \<times> real \<rightharpoonup> int"
  rep_pt :: "'s \<times> real \<rightharpoonup> real"
  rep_events :: "'s \<times> 'e \<times> real \<rightharpoonup> int"

definition lookup0 :: "('k \<rightharpoonup> 'v::zero) \<Rightarrow> 'k \<Rightarrow> 'v" where
  "lookup0 m k = (case m k of None \<Rightarrow> 0 | Some v \<Rightarrow> v)"

definition map_incr :: "('k \<rightharpoonup> 'v::{zero,plus}) \<Rightarrow> 'k \<Rightarrow> 'v \<Rightarrow> ('k \<rightharpoonup> 'v)" where
  "map_incr m k d = m(k \<mapsto> lookup0 m k + d)"


text \<open>\<open>*max_element(begin, end)\<close>: on an empty vector it reads \<open>end()\<close>.\<close>

definition setPartition :: "('s, 'e) EventReport \<Rightarrow> real list \<Rightarrow> error + ('s, 'e) EventReport" where
  "setPartition r p =
     (case p of
        [] \<Rightarrow> Inl OutOfBounds
      | a # as \<Rightarrow> Inr (r\<lparr>rep_partition := p, rep_max := fold max as a\<rparr>))"

text \<open>
  \<open>std::lower_bound\<close> on a vector that is partitioned with respect to \<open>< x\<close> (every
  sorted vector is): the index of the first element that is not less than \<open>x\<close>, the
  length of the vector when there is none.
\<close>

definition lower_bound :: "real list \<Rightarrow> real \<Rightarrow> nat" where
  "lower_bound p x = length (takeWhile (\<lambda>a. a < x) p)"

text \<open>Reading \<open>*it\<close>; an iterator is its index, \<open>end()\<close> is the length.\<close>

definition deref :: "real list \<Rightarrow> nat \<Rightarrow> error + real" where
  "deref p i = (if i < length p then Inr (p ! i) else Inl OutOfBounds)"

text \<open>\<open>it - 1\<close>: there is no iterator before \<open>begin()\<close>.\<close>

definition iter_dec :: "nat \<Rightarrow> error + nat" where
  "iter_dec i = (if i = 0 then Inl OutOfBounds else Inr (i - 1))"

text \<open>The body of the \<open>for\<close> loop of \<open>add\<close>, at \<open>*it = a\<close> and \<open>*(it+1) = b\<close>.\<close>

definition add_body ::
  "'s \<Rightarrow> real \<Rightarrow> real \<Rightarrow> real \<Rightarrow> real \<Rightarrow> ('s, 'e) EventReport \<Rightarrow> ('s, 'e) EventReport" where
  "add_body state lhs rhs a b r =
     (let r1 = r\<lparr>rep_pt := map_incr (rep_pt r) (state, a)
                 ((if b < rhs then b else rhs) - (if a < lhs then lhs else a))\<rparr>
      in if lhs \<le> a \<and> a < rhs
         then r1\<lparr>rep_prev := map_incr (rep_prev r1) (state, a) 1\<rparr>
         else r1)"

text \<open>
  \<open>for (it = lo; (*it) < itmax; ++it) { ... *(it+1) ... }\<close>: returns the iterator the
  loop stops at, and the report.
\<close>

function add_loop ::
  "real list \<Rightarrow> 's \<Rightarrow> real \<Rightarrow> real \<Rightarrow> real \<Rightarrow> nat \<Rightarrow> ('s, 'e) EventReport
     \<Rightarrow> error + (nat \<times> ('s, 'e) EventReport)" where
  "add_loop p state lhs rhs itmax it r =
     (if length p \<le> it then Inl OutOfBounds
      else if p ! it < itmax then
        (if length p \<le> it + 1 then Inl OutOfBounds
         else add_loop p state lhs rhs itmax (it + 1)
                (add_body state lhs rhs (p ! it) (p ! (it + 1)) r))
      else Inr (it, r))"
  by pat_completeness auto
termination
  by (relation "measure (\<lambda>(p, state, lhs, rhs, itmax, it, r). length p - it)") auto

declare add_loop.simps [simp del]

definition add ::
  "('s, 'e) EventReport \<Rightarrow> 's \<Rightarrow> 'e \<Rightarrow> real \<Rightarrow> real \<Rightarrow> error + ('s, 'e) EventReport" where
  "add r state event lhs rhs =
     (let p = rep_partition r in
      case deref p (lower_bound p lhs) of
        Inl e \<Rightarrow> Inl e
      | Inr v \<Rightarrow>
        (case (if lhs < v then iter_dec (lower_bound p lhs) else Inr (lower_bound p lhs)) of
           Inl e \<Rightarrow> Inl e
         | Inr lo \<Rightarrow>
           (let itmax = (if rhs < rep_max r then rhs else rep_max r) in
            case add_loop p state lhs rhs itmax lo r of
              Inl e \<Rightarrow> Inl e
            | Inr (it, r') \<Rightarrow>
              if rhs < rep_max r then
                (case iter_dec it of
                   Inl e \<Rightarrow> Inl e
                 | Inr i \<Rightarrow>
                   (case deref p i of
                      Inl e \<Rightarrow> Inl e
                    | Inr a \<Rightarrow> Inr (r'\<lparr>rep_events := map_incr (rep_events r') (state, event, a) 1\<rparr>)))
              else Inr r')))"

text \<open>A report as \<open>setPartition\<close> leaves it for a strictly increasing partition.\<close>

definition partitioned :: "('s, 'e) EventReport \<Rightarrow> bool" where
  "partitioned r \<longleftrightarrow>
     rep_partition r \<noteq> [] \<and> sorted_wrt (<) (rep_partition r) \<and>
     rep_max r = last (rep_partition r)"

text \<open>The person-time of all states and buckets together.\<close>

definition pt_total :: "('s, 'e) EventReport \<Rightarrow> real" where
  "pt_total r = (\<Sum>k \<in> dom (rep_pt r). lookup0 (rep_pt r) k)"

text \<open>
  The loop of \<open>add\<close> from iterator \<open>it\<close> up to (not including) iterator \<open>j\<close>, as a
  fold of its body; \<open>credit\<close> is what the body adds to the person-time of bucket \<open>i\<close>.
\<close>

definition add_fold ::
  "real list \<Rightarrow> 's \<Rightarrow> real \<Rightarrow> real \<Rightarrow> nat \<Rightarrow> nat \<Rightarrow> ('s, 'e) EventReport \<Rightarrow> ('s, 'e) EventReport" where
  "add_fold p state lhs rhs it j r =
     fold (\<lambda>i. add_body state lhs rhs (p ! i) (p ! (i + 1))) [it..<j] r"

definition credit :: "real list \<Rightarrow> real \<Rightarrow> real \<Rightarrow> nat \<Rightarrow> real" where
  "credit p lhs rhs i =
     (if p ! (i + 1) < rhs then p ! (i + 1) else rhs) - (if p ! i < lhs then lhs else p ! i)"

text \<open>
  The handlers (\<open>SimplePerson::handleMessage\<close>, \<open>FhcrcPerson::handleMessage\<close>) open
  with \<open>report.add(state, msg->kind, previousEventTime, now())\<close>, and
  \<open>cProcess::process_event\<close> then sets \<open>previousEventTime\<close> to the clock. Over a
  sequence of dispatched messages, each given as the state it finds, its kind and its
  time, the report develops as follows.
\<close>

fun report_dispatches ::
  "('s, 'e) EventReport \<Rightarrow> real \<Rightarrow> ('s \<times> 'e \<times> real) list \<Rightarrow> error + ('s, 'e) EventReport" where
  "report_dispatches r previousEventTime [] = Inr r"
| "report_dispatches r previousEventTime ((state, kind, now) # ms) =
     (case add r state kind previousEventTime now of
        Inl e \<Rightarrow> Inl e
      | Inr r' \<Rightarrow> report_dispatches r' now ms)"

fun dispatch_times :: "('s \<times> 'e \<times> real) list \<Rightarrow> real list" where
  "dispatch_times [] = []"
| "dispatch_times ((state, kind, now) # ms) = now # dispatch_times ms"

text \<open>
  The specification's buckets are the half-open intervals \<open>[a\<^sub>i, a\<^sub>i\<^sub>+\<^sub>1)\<close>;
  \<open>bucket_containing\<close> follows its words: the left edge of the bucket that holds \<open>x\<close>.
\<close>

fun bucket_containing :: "real list \<Rightarrow> real \<Rightarrow> real option" where
  "bucket_containing (a # b # as) x =
     (if a \<le> x \<and> x < b then Some a else bucket_containing (b # as) x)"
| "bucket_containing _ x = None"

text \<open>
  A report over the partition \<open>0 < 1 < 2\<close> with nothing recorded, as
  \<open>clear(); setPartition({0, 1, 2})\<close> leaves an \<open>EventReport<short, short, double>\<close>.
\<close>

definition example_report :: "(int, int) EventReport" where
  "example_report =
     \<lparr>rep_max = 2, rep_partition = [0, 1, 2], rep_prev = Map.empty, rep_pt = Map.empty,
      rep_events = Map.empty\<rparr>"

section \<open>cProcess and FhcrcPerson: the survival calculation (fhcrc-example.cpp)\<close>

datatype base_grade_t = Gleason_le_7 | Gleason_ge_8

datatype ext_grade_t = ext_Gleason_le_6 | ext_Gleason_7 | ext_Gleason_ge_8

datatype state_t = Healthy | Localised | Metastatic

datatype diagnosis_t = NotDiagnosed | ClinicalDiagnosis | ScreenDiagnosis

datatype treatment_t = no_treatment | CM | RP | RT

record cProcess =
  previousEventTime :: real

text \<open>
  Record fields are constants of the whole theory, and the person classes share member
  names with each other and with the parameters of \<open>EventReport::add\<close>; the members of
  \<open>FhcrcPerson\<close> carry the prefix \<open>fp_\<close>, those of \<open>SimplePerson\<close> the prefix \<open>sp_\<close>.
\<close>

record FhcrcPerson = cProcess +
  fp_beta0 :: real
  fp_beta1 :: real
  fp_beta2 :: real
  fp_t0 :: real
  fp_y0 :: real
  fp_tm :: real
  fp_tc :: real
  fp_tmc :: real
  fp_state :: state_t
  fp_dx :: diagnosis_t
  fp_grade :: base_grade_t
  fp_ext_grade :: ext_grade_t
  fp_tx :: treatment_t
  fp_adt :: bool
  fp_txhaz :: real
  fp_id :: int
  fp_cohort :: real
  fp_utility :: real
  fp_everPSA :: bool
  fp_previousNegativeBiopsy :: bool
  fp_organised :: bool

definition bounds :: "real \<Rightarrow> real \<Rightarrow> real \<Rightarrow> real" where
  "bounds x a b = (if x < a then a else if x > b then b else x)"

text \<open>
  \<open>H_local_age_set\<close> is a \<open>std::set<double, greater<double>>\<close>: its elements in
  iteration order, largest first. \<open>insert\<close> keeps the order and drops a value that is
  already there; \<open>lower_bound(x)\<close> is the first element \<open>e\<close> in that order for which
  the comparison \<open>e > x\<close> is false, \<open>None\<close> standing for \<open>end()\<close>.
\<close>

fun set_insert :: "real \<Rightarrow> real list \<Rightarrow> real list" where
  "set_insert x [] = [x]"
| "set_insert x (y # ys) =
     (if x > y then x # y # ys else if x = y then y # ys else y # set_insert x ys)"

definition set_lower_bound :: "real list \<Rightarrow> real \<Rightarrow> real option" where
  "set_lower_bound s x = find (\<lambda>e. \<not> e > x) s"

text \<open>
  What \<open>calculate_survival\<close> reads besides the person: the \<open>parameter\<close> vector, the
  maps \<open>H_dist\<close> and \<open>H_local\<close> (\<open>operator[]\<close> gives a row for every key) and the age
  set. The class \<open>NumericInterpolate\<close> of the rows is not part of the sources at hand;
  its \<open>invert\<close> is a parameter. \<open>callFhcrc\<close> fills the age set from the
  \<open>Age\<close> column of the \<open>survival_local\<close> table.
\<close>

record 'tab survival_tables =
  parameter :: "string \<Rightarrow> real"
  H_dist :: "base_grade_t \<Rightarrow> 'tab"
  H_local :: "real \<times> base_grade_t \<Rightarrow> 'tab"
  H_local_age_set :: "real list"
  invert :: "'tab \<Rightarrow> real \<Rightarrow> real"

definition age_set_of :: "real list \<Rightarrow> real list" where
  "age_set_of sl_ages = fold set_insert sl_ages []"

text \<open>
  \<open>ustar\<close> as \<open>calculate_survival\<close> computes it (\<open>pow\<close>, \<open>exp\<close> and \<open>log\<close> on the
  reals), then the function itself. \<open>*H_local_age_set.lower_bound(...)\<close> reads
  \<open>end()\<close> when no key qualifies.
\<close>

definition survival_ustar ::
  "('tab, 'b) survival_tables_scheme \<Rightarrow> 'a FhcrcPerson_scheme \<Rightarrow> real \<Rightarrow> real \<Rightarrow> real \<Rightarrow> treatment_t \<Rightarrow> real" where
  "survival_ustar env person u age_diag age_c tx =
     (let age_m = fp_tm person + 35;
          localised = (age_diag < age_m);
          txhaz = (if localised \<and> (tx = RP \<or> tx = RT) then 0.62 else 1);
          lead_time = age_c - age_diag;
          txbenefit = exp (ln txhaz + ln (parameter env ''c_txlt_interaction'') * lead_time)
      in u powr (1 / (parameter env ''c_baseline_specific'' * txbenefit * parameter env ''sxbenefit'')))"

definition calculate_survival ::
  "('tab, 'b) survival_tables_scheme \<Rightarrow> 'a FhcrcPerson_scheme \<Rightarrow> real \<Rightarrow> real \<Rightarrow> real \<Rightarrow> treatment_t \<Rightarrow> error + real" where
  "calculate_survival env person u age_diag age_c tx =
     (let age_m = fp_tm person + 35;
          localised = (age_diag < age_m);
          ustar = survival_ustar env person u age_diag age_c tx
      in if localised then
           (case set_lower_bound (H_local_age_set env) (bounds age_diag 50 80) of
              None \<Rightarrow> Inl OutOfBounds
            | Some age \<Rightarrow> Inr (age_c + invert env (H_local env (age, fp_grade person)) (- ln ustar)))
         else Inr (age_c + invert env (H_dist env (fp_grade person)) (- ln ustar)))"

text \<open>
  The specification's \<open>ceil_age\<close>, in its words: the smallest age key that is greater
  than or equal to \<open>x\<close>.
\<close>

definition ceil_age :: "real list \<Rightarrow> real \<Rightarrow> real option" where
  "ceil_age keys x =
     (case filter (\<lambda>k. x \<le> k) keys of [] \<Rightarrow> None | k # ks \<Rightarrow> Some (fold min ks k))"

text \<open>
  Example data: a person with \<open>tm = 40\<close>, \<open>tc = 25\<close> and low grade; rows that are named by their
  keys, with an \<open>invert\<close> that returns the age of the row (so that the result shows the
  row used); and tables with all three parameters \<open>1\<close> whose \<open>invert\<close> is the identity.
\<close>

definition example_person :: FhcrcPerson where
  "example_person =
     \<lparr>previousEventTime = 0, fp_beta0 = 0, fp_beta1 = 0, fp_beta2 = 0, fp_t0 = 0, fp_y0 = 0,
      fp_tm = 40, fp_tc = 25, fp_tmc = 45, fp_state = Localised, fp_dx = NotDiagnosed,
      fp_grade = Gleason_le_7, fp_ext_grade = ext_Gleason_le_6, fp_tx = no_treatment,
      fp_adt = False, fp_txhaz = - 1, fp_id = 0, fp_cohort = 1950, fp_utility = 1,
      fp_everPSA = False, fp_previousNegativeBiopsy = False, fp_organised = False\<rparr>"

definition example_tables :: "(real \<times> base_grade_t) survival_tables" where
  "example_tables =
     \<lparr>parameter = (\<lambda>n. 1), H_dist = (\<lambda>g. (0, g)), H_local = (\<lambda>k. k),
      H_local_age_set = age_set_of [50, 60, 70, 80, 60, 50],
      invert = (\<lambda>row x. fst row)\<rparr>"

definition identity_tables :: "unit survival_tables" where
  "identity_tables =
     \<lparr>parameter = (\<lambda>n. 1), H_dist = (\<lambda>g. ()), H_local = (\<lambda>k. ()),
      H_local_age_set = age_set_of [50, 60, 70, 80],
      invert = (\<lambda>row x. x)\<rparr>"

section \<open>cMessage and cProcess (microsimulation.h)\<close>

text \<open>
  A \<open>cMessage\<close> with its members; \<open>kind\<close> is a \<open>short\<close>, read as an integer. The
  subclasses \<open>cMessageUtility\<close> and \<open>cMessageUtilityChange\<close> of fhcrc-example.cpp add
  one member each: \<open>msg_payload\<close> tells the class of the object (what \<open>dynamic_cast\<close>
  tests) and holds that member. The constructor sets \<open>sendingTime\<close> to the clock and
  leaves \<open>timestamp\<close> unset; it is \<open>0\<close> here until \<open>scheduleAt\<close> sets it.
\<close>

datatype payload = NoPayload | Utility real | UtilityChange real

record cMessage =
  msg_kind :: int
  msg_name :: string
  msg_sendingTime :: real
  msg_timestamp :: real
  msg_payload :: payload

definition cMessage_new :: "real \<Rightarrow> int \<Rightarrow> string \<Rightarrow> cMessage" where
  "cMessage_new clock k n =
     \<lparr>msg_kind = k, msg_name = n, msg_sendingTime = clock, msg_timestamp = 0,
      msg_payload = NoPayload\<rparr>"

definition cMessageKindEq :: "int \<Rightarrow> cMessage \<Rightarrow> bool" where
  "cMessageKindEq k msg \<longleftrightarrow> msg_kind msg = k"

definition cMessageNameEq :: "string \<Rightarrow> cMessage \<Rightarrow> bool" where
  "cMessageNameEq s msg \<longleftrightarrow> msg_name msg = s"

section \<open>The simulation kernel\<close>

text \<open>
  The kernel (\<open>ssim\<close>: \<open>Sim::clock\<close>, \<open>Sim::self_signal_event\<close>, \<open>Sim::run_simulation\<close>,
  \<open>Sim::stop_simulation\<close>, \<open>Sim::remove_event\<close>, \<open>Sim::create_process\<close>, \<open>Sim::clear\<close>)
  is called by the sources at hand but not among them. Its definitions below follow the
  specification, section 4.1. A queue entry is
  \<open>(timestamp, insertion_order, Message)\<close>.
\<close>

type_synonym entry = "real \<times> nat \<times> cMessage"

record Sim =
  sim_clock :: real
  sim_queue :: "entry list"
  sim_sequence :: nat
  sim_running :: bool
  sim_current_process :: bool

text \<open>
  Modelled from the spec: the kernel state of \<open>ssim\<close> before any process is created,
  and after \<open>clear()\<close>, which "drops queue, resets clock=0, detaches process".
\<close>

definition Sim_initial :: Sim where
  "Sim_initial =
     \<lparr>sim_clock = 0, sim_queue = [], sim_sequence = 0, sim_running = False,
      sim_current_process = False\<rparr>"

definition Sim_clear :: "Sim \<Rightarrow> Sim" where
  "Sim_clear sim = Sim_initial"

text \<open>
  Modelled from the spec: \<open>Sim::self_signal_event\<close> of \<open>ssim\<close>, the kernel end of
  \<open>schedule_at\<close>. "t must be \<open>\<ge> now()\<close>"; "Scheduling with \<open>t < now()\<close> is a contract
  violation and fails with \<open>TimeReversal\<close>"; the message is "inserted into the queue with
  monotonically increasing insertion sequence". The kernel is handed the delay
  \<open>t - now()\<close>.
\<close>

definition self_signal_event :: "Sim \<Rightarrow> cMessage \<Rightarrow> real \<Rightarrow> error + Sim" where
  "self_signal_event sim msg delay =
     (if delay < 0 then Inl TimeReversal
      else Inr (sim\<lparr>sim_queue := sim_queue sim @ [(sim_clock sim + delay, sim_sequence sim, msg)],
                    sim_sequence := Suc (sim_sequence sim)\<rparr>))"

text \<open>\<open>cProcess::scheduleAt\<close> and its two overloads that make the message.\<close>

definition scheduleAt :: "Sim \<Rightarrow> real \<Rightarrow> cMessage \<Rightarrow> error + Sim" where
  "scheduleAt sim t msg = self_signal_event sim (msg\<lparr>msg_timestamp := t\<rparr>) (t - sim_clock sim)"

definition scheduleAt_name :: "Sim \<Rightarrow> real \<Rightarrow> string \<Rightarrow> error + Sim" where
  "scheduleAt_name sim t n = scheduleAt sim t (cMessage_new (sim_clock sim) (- 1) n)"

definition scheduleAt_kind :: "Sim \<Rightarrow> real \<Rightarrow> int \<Rightarrow> error + Sim" where
  "scheduleAt_kind sim t k = scheduleAt sim t (cMessage_new (sim_clock sim) k [])"

text \<open>
  Modelled from the spec: \<open>Sim::remove_event\<close> of \<open>ssim\<close>, "removes every queue entry
  whose message satisfies \<open>pred\<close>", and \<open>Sim::stop_simulation\<close>, "sets running=false;
  current handle() may continue but no further messages dispatch".
\<close>

definition remove_event :: "Sim \<Rightarrow> (cMessage \<Rightarrow> bool) \<Rightarrow> Sim" where
  "remove_event sim pred = sim\<lparr>sim_queue := filter (\<lambda>(t, n, msg). \<not> pred msg) (sim_queue sim)\<rparr>"

definition stop_simulation :: "Sim \<Rightarrow> Sim" where
  "stop_simulation sim = sim\<lparr>sim_running := False\<rparr>"

text \<open>
  A handler does three things to the kernel: it schedules messages, removes pending
  ones and stops the simulation; of the kernel it reads only the clock. Its calls are
  collected in the order it makes them and applied in that order; a failing call ends
  the run as the exception would. Every call of \<open>scheduleAt\<close> in the sources makes its
  message on the spot (\<open>scheduleAt(t, kind)\<close>, \<open>scheduleAt(t, new cMessageUtility(u))\<close>),
  so a scheduling call is given by the time, the kind, the name and the payload.
\<close>

datatype cmd = ScheduleAt real int string payload | RemoveEvent "cMessage \<Rightarrow> bool" | StopSimulation

fun exec_cmd :: "Sim \<Rightarrow> cmd \<Rightarrow> error + Sim" where
  "exec_cmd sim (ScheduleAt t k n pl) =
     scheduleAt sim t ((cMessage_new (sim_clock sim) k n)\<lparr>msg_payload := pl\<rparr>)"
| "exec_cmd sim (RemoveEvent pred) = Inr (remove_event sim pred)"
| "exec_cmd sim StopSimulation = Inr (stop_simulation sim)"

fun exec_cmds :: "Sim \<Rightarrow> cmd list \<Rightarrow> error + Sim" where
  "exec_cmds sim [] = Inr sim"
| "exec_cmds sim (c # cs) =
     (case exec_cmd sim c of Inl e \<Rightarrow> Inl e | Inr sim' \<Rightarrow> exec_cmds sim' cs)"

text \<open>The handlers' \<open>scheduleAt(t, kind)\<close> and \<open>RemoveKind(kind)\<close>.\<close>

definition schedule_kind :: "real \<Rightarrow> int \<Rightarrow> cmd" where
  "schedule_kind t k = ScheduleAt t k [] NoPayload"

definition RemoveKind :: "int \<Rightarrow> cmd" where
  "RemoveKind k = RemoveEvent (cMessageKindEq k)"

text \<open>
  \<open>cProcess::process_event\<close>: the handler of the subclass, then
  \<open>previousEventTime = Sim::clock()\<close>. The world a handler works on is the pair of the
  globals it uses and the process object. (Every event of these programs is a
  \<open>cMessage\<close>, so the branch of the failed \<open>dynamic_cast\<close> is not taken.)
\<close>

type_synonym 'w handler = "'w \<Rightarrow> real \<Rightarrow> cMessage \<Rightarrow> error + ('w \<times> cmd list)"

definition process_event ::
  "('g \<times> 'a cProcess_scheme) handler \<Rightarrow> ('g \<times> 'a cProcess_scheme) handler" where
  "process_event handleMessage w now msg =
     (case handleMessage w now msg of
        Inl e \<Rightarrow> Inl e
      | Inr ((g, p), cmds) \<Rightarrow> Inr ((g, p\<lparr>previousEventTime := now\<rparr>), cmds))"

text \<open>
  Modelled from the spec: the queue order of \<open>ssim\<close>, "smallest timestamp first; ties
  broken by insertion order", and the removal of the minimum entry.
\<close>

fun entry_less :: "entry \<Rightarrow> entry \<Rightarrow> bool" where
  "entry_less (t1, n1, m1) (t2, n2, m2) \<longleftrightarrow> t1 < t2 \<or> (t1 = t2 \<and> n1 < n2)"

definition pop_min :: "entry list \<Rightarrow> (entry \<times> entry list) option" where
  "pop_min q =
     (case q of
        [] \<Rightarrow> None
      | e # es \<Rightarrow>
          (let m = fold (\<lambda>x best. if entry_less x best then x else best) es e
           in Some (m, remove1 m q)))"

text \<open>
  Modelled from the spec: one turn of the loop of \<open>Sim::run_simulation\<close> of \<open>ssim\<close>,
  "pop the queue's minimum entry, advance clock to its timestamp, dispatch to
  current_process.handle(msg)", the loop leaving "when the queue is empty or stop() was
  invoked".
\<close>

datatype 'w step = Exit | Failed error | Dispatched entry Sim 'w

definition sim_step :: "'w handler \<Rightarrow> Sim \<Rightarrow> 'w \<Rightarrow> 'w step" where
  "sim_step process sim w =
     (if \<not> sim_running sim then Exit
      else case pop_min (sim_queue sim) of
        None \<Rightarrow> Exit
      | Some ((t, n, msg), q) \<Rightarrow>
          (case process w t msg of
             Inl e \<Rightarrow> Failed e
           | Inr (w', cmds) \<Rightarrow>
               (case exec_cmds (sim\<lparr>sim_clock := t, sim_queue := q\<rparr>) cmds of
                  Inl e \<Rightarrow> Failed e
                | Inr sim' \<Rightarrow> Dispatched (t, n, msg) sim' w')))"

text \<open>
  Modelled from the spec: \<open>Sim::run_simulation\<close> of \<open>ssim\<close>. The loop may run for
  ever; it is given a number of turns, and reports whether it left the loop
  (\<open>Completed\<close>), failed, or used up its turns. The trace lists the dispatched entries,
  each with the world its handler found.
\<close>

datatype run_status = Completed | Aborted error | OutOfFuel

record 'w run =
  run_status :: run_status
  run_sim :: Sim
  run_world :: 'w
  run_trace :: "(entry \<times> 'w) list"

fun run_loop :: "nat \<Rightarrow> 'w handler \<Rightarrow> Sim \<Rightarrow> 'w \<Rightarrow> 'w run" where
  "run_loop 0 process sim w =
     \<lparr>run_status = OutOfFuel, run_sim = sim, run_world = w, run_trace = []\<rparr>"
| "run_loop (Suc fuel) process sim w =
     (case sim_step process sim w of
        Exit \<Rightarrow> \<lparr>run_status = Completed, run_sim = sim, run_world = w, run_trace = []\<rparr>
      | Failed e \<Rightarrow> \<lparr>run_status = Aborted e, run_sim = sim, run_world = w, run_trace = []\<rparr>
      | Dispatched e sim' w' \<Rightarrow>
          (let r = run_loop fuel process sim' w'
           in r\<lparr>run_trace := (e, w) # run_trace r\<rparr>))"

definition run_simulation :: "nat \<Rightarrow> 'w handler \<Rightarrow> Sim \<Rightarrow> 'w \<Rightarrow> 'w run" where
  "run_simulation fuel process sim w = run_loop fuel process (sim\<lparr>sim_running := True\<rparr>) w"

text \<open>
  Modelled from the spec: \<open>Sim::create_process\<close> of \<open>ssim\<close>, "attaches process p as the
  current subject, calls p.init(). Fails with AlreadyRunning if a process exists."
\<close>

definition create_process ::
  "('w \<Rightarrow> real \<Rightarrow> error + ('w \<times> cmd list)) \<Rightarrow> Sim \<Rightarrow> 'w \<Rightarrow> error + (Sim \<times> 'w)" where
  "create_process init sim w =
     (if sim_current_process sim then Inl AlreadyRunning
      else case init w (sim_clock sim) of
        Inl e \<Rightarrow> Inl e
      | Inr (w', cmds) \<Rightarrow>
          (case exec_cmds (sim\<lparr>sim_current_process := True\<rparr>) cmds of
             Inl e \<Rightarrow> Inl e
           | Inr sim' \<Rightarrow> Inr (sim', w')))"

text \<open>
  One pass of the drivers' loop, \<open>Sim::create_process(&person); Sim::run_simulation();\<close>,
  on a cleared kernel.
\<close>

definition simulate ::
  "nat \<Rightarrow> ('w \<Rightarrow> real \<Rightarrow> error + ('w \<times> cmd list)) \<Rightarrow> 'w handler \<Rightarrow> 'w \<Rightarrow> 'w run" where
  "simulate fuel init process w =
     (case create_process init Sim_initial w of
        Inl e \<Rightarrow> \<lparr>run_status = Aborted e, run_sim = Sim_initial, run_world = w, run_trace = []\<rparr>
      | Inr (sim, w') \<Rightarrow> run_simulation fuel process sim w')"

text \<open>
  What holds of the kernel state between two calls: every pending entry is due no
  earlier than the clock, was numbered before the next insertion, carries its due time
  as \<open>timestamp\<close> and a \<open>sendingTime\<close> no later than that; and no two entries share a
  number.
\<close>

definition queue_ok :: "Sim \<Rightarrow> bool" where
  "queue_ok sim \<longleftrightarrow>
     (\<forall>(t, n, msg) \<in> set (sim_queue sim).
        sim_clock sim \<le> t \<and> n < sim_sequence sim \<and> msg_timestamp msg = t \<and>
        msg_sendingTime msg \<le> msg_timestamp msg) \<and>
     distinct (map (\<lambda>(t, n, msg). n) (sim_queue sim))"

section \<open>SimplePerson (illness-death.cpp)\<close>

datatype ill_state_t = ill_Healthy | ill_Cancer

datatype ill_event_t = ill_toOtherDeath | ill_toCancer | ill_toCancerDeath

text \<open>The enumerators as the \<open>short\<close> values the report and the messages carry.\<close>

fun ill_state_short :: "ill_state_t \<Rightarrow> int" where
  "ill_state_short ill_Healthy = 0"
| "ill_state_short ill_Cancer = 1"

fun ill_event_short :: "ill_event_t \<Rightarrow> int" where
  "ill_event_short ill_toOtherDeath = 0"
| "ill_event_short ill_toCancer = 1"
| "ill_event_short ill_toCancerDeath = 2"

record SimplePerson = cProcess +
  sp_state :: ill_state_t
  sp_id :: int
  sp_z :: real

text \<open>
  R's generators are outside the repository. Each call of \<open>R::rweibull\<close> or
  \<open>R::runif\<close> returns a value the environment supplies; one run of an individual makes
  each of the five calls at most once.
\<close>

record ill_draws =
  d_other_death :: real
  u_cancer :: real
  d_cancer :: real
  u_cure :: real
  d_cancer_death :: real

text \<open>The constructor \<open>SimplePerson(i)\<close>; \<open>state\<close> and \<open>z\<close> are set by \<open>init\<close>.\<close>

definition SimplePerson_new :: "int \<Rightarrow> SimplePerson" where
  "SimplePerson_new i = \<lparr>previousEventTime = 0, sp_state = ill_Healthy, sp_id = i, sp_z = 1\<rparr>"

definition SimplePerson_init ::
  "ill_draws \<Rightarrow> (int, int) EventReport \<times> SimplePerson \<Rightarrow> real
     \<Rightarrow> error + (((int, int) EventReport \<times> SimplePerson) \<times> cmd list)" where
  "SimplePerson_init draws w now =
     (case w of (report, person) \<Rightarrow>
        Inr ((report, person\<lparr>sp_state := ill_Healthy, sp_z := 1\<rparr>),
             schedule_kind (d_other_death draws) (ill_event_short ill_toOtherDeath) #
             (if u_cancer draws < 0.1
              then [schedule_kind (d_cancer draws) (ill_event_short ill_toCancer)]
              else [])))"

definition SimplePerson_handleMessage ::
  "ill_draws \<Rightarrow> ((int, int) EventReport \<times> SimplePerson) handler" where
  "SimplePerson_handleMessage draws w now msg =
     (case w of (report, person) \<Rightarrow>
        (case add report (ill_state_short (sp_state person)) (msg_kind msg)
                (previousEventTime person) now of
           Inl e \<Rightarrow> Inl e
         | Inr report' \<Rightarrow>
             if msg_kind msg = ill_event_short ill_toOtherDeath \<or>
                msg_kind msg = ill_event_short ill_toCancerDeath
             then Inr ((report', person), [StopSimulation])
             else if msg_kind msg = ill_event_short ill_toCancer
             then Inr ((report', person\<lparr>sp_state := ill_Cancer\<rparr>),
                       RemoveEvent (cMessageKindEq (ill_event_short ill_toOtherDeath)) #
                       (if u_cure draws < 0.5
                        then [schedule_kind (now + d_cancer_death draws)
                                (ill_event_short ill_toCancerDeath)]
                        else []))
             else Inr ((report', person), [])))"







text \<open>
  Draws for which \<open>toCancer\<close> at age \<open>50\<close> comes before \<open>toOtherDeath\<close> at \<open>80\<close> and the
  cure draw \<open>0.7\<close> schedules no \<open>toCancerDeath\<close>.
\<close>

definition cured_draws :: ill_draws where
  "cured_draws =
     \<lparr>d_other_death = 80, u_cancer = 0.05, d_cancer = 50, u_cure = 0.7, d_cancer_death = 5\<rparr>"


section \<open>FhcrcPerson (fhcrc-example.cpp)\<close>

datatype event_t =
  toLocalised | toMetastatic | toClinicalDiagnosis | toCancerDeath | toOtherDeath | toScreen
| toBiopsyFollowUpScreen | toScreenInitiatedBiopsy | toClinicalDiagnosticBiopsy
| toScreenDiagnosis | toOrganised | toTreatment | toCM | toRP | toRT | toADT | toUtilityChange
| toUtility

datatype screen_t =
  noScreening | randomScreen50to70 | twoYearlyScreen50to70 | fourYearlyScreen50to70
| screen50 | screen60 | screen70 | screenUptake | stockholm3_goteborg | stockholm3_risk_stratified

text \<open>The enumerators of \<open>event_t\<close> as \<open>short\<close> values, and back (what \<open>switch\<close> does).\<close>

definition all_events :: "event_t list" where
  "all_events =
     [toLocalised, toMetastatic, toClinicalDiagnosis, toCancerDeath, toOtherDeath, toScreen,
      toBiopsyFollowUpScreen, toScreenInitiatedBiopsy, toClinicalDiagnosticBiopsy,
      toScreenDiagnosis, toOrganised, toTreatment, toCM, toRP, toRT, toADT, toUtilityChange,
      toUtility]"

fun event_short :: "event_t \<Rightarrow> int" where
  "event_short toLocalised = 0"
| "event_short toMetastatic = 1"
| "event_short toClinicalDiagnosis = 2"
| "event_short toCancerDeath = 3"
| "event_short toOtherDeath = 4"
| "event_short toScreen = 5"
| "event_short toBiopsyFollowUpScreen = 6"
| "event_short toScreenInitiatedBiopsy = 7"
| "event_short toClinicalDiagnosticBiopsy = 8"
| "event_short toScreenDiagnosis = 9"
| "event_short toOrganised = 10"
| "event_short toTreatment = 11"
| "event_short toCM = 12"
| "event_short toRP = 13"
| "event_short toRT = 14"
| "event_short toADT = 15"
| "event_short toUtilityChange = 16"
| "event_short toUtility = 17"

definition short_event :: "int \<Rightarrow> event_t option" where
  "short_event k = (if 0 \<le> k \<and> k < 18 then Some (all_events ! nat k) else None)"

type_synonym FullState = "state_t \<times> ext_grade_t \<times> diagnosis_t \<times> bool \<times> real"

text \<open>
  The globals the person reads, next to the tables of \<open>calculate_survival\<close>. The classes
  \<open>Table\<close> and \<open>NumericInterpolate\<close> are not among the sources at hand: a table is the
  function its \<open>operator()\<close> computes. \<open>screen\<close> is an \<open>int\<close> compared with the
  enumerators of \<open>screen_t\<close>; \<open>None\<close> stands for a value that matches none. The values
  returned by R's generators (and by \<open>Rpexp::rand\<close>, which draws from them) are supplied
  by \<open>rnd\<close>, by the number of the handler call and the place of the call in the code;
  every such place is reached at most once in one call of a handler.

  The collectors \<open>costs\<close>, \<open>lifeHistories\<close>, \<open>outParameters\<close> and \<open>psarecord\<close> are
  only written to and are left out. The \<open>report\<close> is kept: the handler calls
  \<open>report.add\<close> with a fifth argument, the utility, for which the \<open>EventReport\<close> at
  hand has no member; the call is read as the four-argument \<open>add\<close>.
\<close>

record 'tab fhcrc_env = "'tab survival_tables" +
  utility_estimates :: "string \<Rightarrow> real"
  utility_duration :: "string \<Rightarrow> real"
  mubeta2 :: "base_grade_t \<Rightarrow> real"
  sebeta2 :: "base_grade_t \<Rightarrow> real"
  screen :: "screen_t option"
  prtxCM :: "real \<times> real \<times> base_grade_t \<Rightarrow> real"
  prtxRP :: "real \<times> real \<times> base_grade_t \<Rightarrow> real"
  pradt :: "treatment_t \<times> real \<times> real \<times> base_grade_t \<Rightarrow> real"
  tableBiopsyCompliance :: "real \<times> real \<Rightarrow> real"
  rescreen_shape :: "real \<times> real \<Rightarrow> real"
  rescreen_scale :: "real \<times> real \<Rightarrow> real"
  rescreen_cure :: "real \<times> real \<Rightarrow> real"
  interp_prob_grade7 :: "real \<Rightarrow> real"
  rnd :: "nat \<Rightarrow> string \<Rightarrow> real"

record fhcrc_globals =
  fg_report :: "(FullState, int) EventReport"
  fg_calls :: nat

definition ymean :: "'a FhcrcPerson_scheme \<Rightarrow> real \<Rightarrow> real" where
  "ymean person t =
     (let t' = (if t < 0 then 0 else t)
      in if t' < fp_t0 person then exp (fp_beta0 person + fp_beta1 person * t')
         else exp (fp_beta0 person + fp_beta1 person * t' + fp_beta2 person * (t' - fp_t0 person)))"

definition y :: "('tab, 'b) fhcrc_env_scheme \<Rightarrow> nat \<Rightarrow> 'a FhcrcPerson_scheme \<Rightarrow> real \<Rightarrow> real" where
  "y env call person t = ymean person t * exp (rnd env call ''rnorm psa'')"

definition calculate_treatment ::
  "('tab, 'b) fhcrc_env_scheme \<Rightarrow> 'a FhcrcPerson_scheme \<Rightarrow> real \<Rightarrow> real \<Rightarrow> real \<Rightarrow> treatment_t" where
  "calculate_treatment env person u age year =
     (let key = (bounds age 50 79, bounds year 1973 2004, fp_grade person);
          pCM = prtxCM env key;
          pRP = prtxRP env key
      in if u < pCM then CM else if u < pCM + pRP then RP else RT)"

text \<open>Scheduling a \<open>cMessageUtilityChange\<close> or a \<open>cMessageUtility\<close>.\<close>

definition schedule_utility_change :: "real \<Rightarrow> real \<Rightarrow> cmd" where
  "schedule_utility_change t change =
     ScheduleAt t (event_short toUtilityChange) [] (UtilityChange change)"

definition schedule_utility :: "real \<Rightarrow> real \<Rightarrow> cmd" where
  "schedule_utility t u = ScheduleAt t (event_short toUtility) [] (Utility u)"

text \<open>
  The pair of messages that lowers the utility by \<open>utility_estimates[item]\<close> at \<open>from\<close>
  and restores it at \<open>until\<close>.
\<close>

definition utility_dip :: "('tab, 'b) fhcrc_env_scheme \<Rightarrow> string \<Rightarrow> real \<Rightarrow> real \<Rightarrow> cmd list" where
  "utility_dip env item from until =
     [schedule_utility_change from (- utility_estimates env item),
      schedule_utility_change until (utility_estimates env item)]"

text \<open>\<open>case toBiopsyFollowUpScreen: case toScreen:\<close>\<close>

definition handle_screen ::
  "('tab, 'b) fhcrc_env_scheme \<Rightarrow> FhcrcPerson \<Rightarrow> nat \<Rightarrow> real \<Rightarrow> real \<Rightarrow> event_t
     \<Rightarrow> FhcrcPerson \<times> cmd list" where
  "handle_screen env person call now psa kind =
     (let test =
            (if fp_organised person
             then utility_dip env ''FormalPSAUtility'' now
                    (now + utility_duration env ''FormalPSAUtilityDuration'')
             else utility_dip env ''OpportunisticPSAUtility'' now
                    (now + utility_duration env ''OpportunisticPSAUtilityDuration''));
          compliance = tableBiopsyCompliance env (bounds psa 4 7, bounds now 55 75);
          next =
            (if kind = toScreen \<and> psa \<ge> parameter env ''psaThreshold'' \<and>
                rnd env call ''runif biopsy compliance'' < compliance
             then [schedule_kind now (event_short toScreenInitiatedBiopsy)]
             else if kind = toBiopsyFollowUpScreen \<and>
                psa \<ge> parameter env ''psaThresholdBiopsyFollowUp'' \<and>
                rnd env call ''runif biopsy compliance'' < compliance
             then [schedule_kind now (event_short toScreenInitiatedBiopsy)]
             else if fp_organised person then
               (if screen env = Some stockholm3_goteborg then
                  [if psa < 1 then schedule_kind (now + 4) (event_short toScreen)
                   else schedule_kind (now + 2) (event_short toScreen)]
                else if screen env = Some stockholm3_risk_stratified then
                  utility_dip env ''FormalPSAUtility'' now
                    (now + utility_duration env ''FormalPSAUtilityDuration'') @
                  [if psa < 1 then schedule_kind (now + 8) (event_short toScreen)
                   else schedule_kind (now + 4) (event_short toScreen)]
                else [])
             else
               (if screen env = Some screenUptake \<or> screen env = Some stockholm3_goteborg \<or>
                   screen env = Some stockholm3_risk_stratified then
                  (let key = (bounds now 30 90, psa);
                       prescreened = 1 - rescreen_cure env key;
                       u = rnd env call ''runif rescreen'';
                       t = now + rnd env call ''rweibull rescreen''
                   in if u < prescreened then [schedule_kind t (event_short toScreen)] else [])
                else []))
      in (person\<lparr>fp_everPSA := True\<rparr>, test @ next))"

text \<open>\<open>case toScreenInitiatedBiopsy:\<close>\<close>

definition handle_biopsy ::
  "('tab, 'b) fhcrc_env_scheme \<Rightarrow> FhcrcPerson \<Rightarrow> nat \<Rightarrow> real \<Rightarrow> FhcrcPerson \<times> cmd list" where
  "handle_biopsy env person call now =
     (let dip = utility_dip env ''BiopsyUtility'' now
                  (now + utility_duration env ''BiopsyUtilityDuration'');
          follow_up =
            (if now < 70 \<and> rnd env call ''runif follow-up'' < parameter env ''screeningCompliance''
             then [schedule_kind (now + 1) (event_short toBiopsyFollowUpScreen)] else [])
      in if fp_state person = Healthy
         then (person\<lparr>fp_previousNegativeBiopsy := True\<rparr>, dip @ follow_up)
         else if fp_state person = Metastatic \<or>
                 (fp_state person = Localised \<and>
                  rnd env call ''runif sensitivity'' < parameter env ''biopsySensitivity'')
         then (person, dip @ [schedule_kind now (event_short toScreenDiagnosis)])
         else (person, dip @ follow_up))"

text \<open>\<open>case toTreatment:\<close>\<close>

definition handle_treatment ::
  "('tab, 'b) fhcrc_env_scheme \<Rightarrow> FhcrcPerson \<Rightarrow> nat \<Rightarrow> real \<Rightarrow> real
     \<Rightarrow> error + (FhcrcPerson \<times> cmd list)" where
  "handle_treatment env person call now year =
     (let u_tx = rnd env call ''runif tx'';
          u_adt = rnd env call ''runif adt'';
          pADT = pradt env (calculate_treatment env person u_tx now year, bounds now 50 79,
                   bounds year 1973 2004, fp_grade person);
          person' =
            (if fp_state person = Metastatic then person
             else person\<lparr>fp_tx := calculate_treatment env person u_tx now year,
                         fp_adt := (u_adt < pADT \<or> fp_adt person)\<rparr>);
          first =
            (if fp_state person = Metastatic
             then [schedule_utility_change now (- utility_estimates env ''MetastaticCancerUtility'')]
             else (if fp_tx person' = CM then [schedule_kind now (event_short toCM)] else []) @
                  (if fp_tx person' = RP then [schedule_kind now (event_short toRP)] else []) @
                  (if fp_tx person' = RT then [schedule_kind now (event_short toRT)] else []) @
                  (if u_adt < pADT then [schedule_kind now (event_short toADT)] else []));
          u_surv = rnd env call ''runif surv'';
          age_c = (if fp_state person = Localised then fp_tc person + 35 else fp_tmc person + 35);
          lead_time = age_c - now
      in case calculate_survival env person' u_surv age_c age_c
                (calculate_treatment env person' u_tx age_c (year + lead_time)) of
           Inl e \<Rightarrow> Inl e
         | Inr age_cd \<Rightarrow>
             (case calculate_survival env person' u_surv now age_c (fp_tx person') of
                Inl e \<Rightarrow> Inl e
              | Inr age_sd \<Rightarrow>
                  (let weight = exp (- parameter env ''c_benefit_value'' * lead_time);
                       age_cancer_death = weight * age_cd + (1 - weight) * age_sd;
                       metastatic = utility_duration env ''MetastaticCancerUtilityDuration'';
                       palliative = utility_duration env ''PalliativeUtilityDuration''
                   in Inr (person',
                        first @
                        [schedule_kind age_cancer_death (event_short toCancerDeath)] @
                        (if fp_state person = Localised then
                           [if age_cancer_death > now + metastatic + palliative
                            then schedule_utility_change (age_cancer_death - metastatic - palliative)
                                   (- utility_estimates env ''MetastaticCancerUtility'')
                            else schedule_utility_change now
                                   (- utility_estimates env ''MetastaticCancerUtility'')]
                         else []) @
                        [if age_cancer_death > now + palliative
                         then schedule_utility_change (age_cancer_death - palliative)
                                (- utility_estimates env ''PalliativeUtility'' +
                                 utility_estimates env ''MetastaticCancerUtility'')
                         else schedule_utility_change now
                                (- utility_estimates env ''PalliativeUtility'' +
                                 utility_estimates env ''MetastaticCancerUtility'')]))))"

text \<open>The two-part utility changes after a prostatectomy or a radiation therapy.\<close>

definition two_part_dip :: "('tab, 'b) fhcrc_env_scheme \<Rightarrow> string \<Rightarrow> real \<Rightarrow> cmd list" where
  "two_part_dip env item now =
     [schedule_utility_change now (- utility_estimates env (item @ ''UtilityPart1'')),
      schedule_utility_change (now + utility_duration env (item @ ''UtilityDurationPart1''))
        (utility_estimates env (item @ ''UtilityPart1'')),
      schedule_utility_change (now + utility_duration env (item @ ''UtilityDurationPart1''))
        (- utility_estimates env (item @ ''UtilityPart2'')),
      schedule_utility_change (now + utility_duration env (item @ ''UtilityDurationPart2''))
        (utility_estimates env (item @ ''UtilityPart2''))]"

text \<open>The \<open>switch (msg->kind)\<close> of \<open>FhcrcPerson::handleMessage\<close>.\<close>

definition handle_kind ::
  "('tab, 'b) fhcrc_env_scheme \<Rightarrow> FhcrcPerson \<Rightarrow> nat \<Rightarrow> real \<Rightarrow> real \<Rightarrow> real \<Rightarrow> cMessage
     \<Rightarrow> error + (FhcrcPerson \<times> cmd list)" where
  "handle_kind env person call now psa year msg =
     (case short_event (msg_kind msg) of
        None \<Rightarrow> Inr (person, [])
      | Some toCancerDeath \<Rightarrow> Inr (person, [StopSimulation])
      | Some toOtherDeath \<Rightarrow> Inr (person, [StopSimulation])
      | Some toLocalised \<Rightarrow>
          Inr (person\<lparr>fp_state := Localised\<rparr>,
               [schedule_kind (fp_tc person + 35) (event_short toClinicalDiagnosis),
                schedule_kind (fp_tm person + 35) (event_short toMetastatic)])
      | Some toMetastatic \<Rightarrow>
          Inr (person\<lparr>fp_state := Metastatic\<rparr>,
               [RemoveKind (event_short toClinicalDiagnosis),
                RemoveKind (event_short toUtility),
                schedule_kind (fp_tmc person + 35) (event_short toClinicalDiagnosis)])
      | Some toClinicalDiagnosis \<Rightarrow>
          Inr (person\<lparr>fp_dx := ClinicalDiagnosis\<rparr>,
               [RemoveKind (event_short toMetastatic),
                RemoveKind (event_short toScreen),
                schedule_kind now (event_short toClinicalDiagnosticBiopsy),
                schedule_kind now (event_short toClinicalDiagnosticBiopsy),
                schedule_kind now (event_short toClinicalDiagnosticBiopsy),
                schedule_kind now (event_short toTreatment)])
      | Some toOrganised \<Rightarrow>
          Inr (person\<lparr>fp_organised := True\<rparr>,
               [RemoveKind (event_short toScreen), schedule_kind now (event_short toScreen)])
      | Some toBiopsyFollowUpScreen \<Rightarrow>
          Inr (handle_screen env person call now psa toBiopsyFollowUpScreen)
      | Some toScreen \<Rightarrow> Inr (handle_screen env person call now psa toScreen)
      | Some toScreenDiagnosis \<Rightarrow>
          Inr (person\<lparr>fp_dx := ScreenDiagnosis\<rparr>,
               [RemoveKind (event_short toMetastatic),
                RemoveKind (event_short toClinicalDiagnosis),
                RemoveKind (event_short toScreen),
                schedule_kind now (event_short toTreatment)])
      | Some toClinicalDiagnosticBiopsy \<Rightarrow>
          Inr (person, utility_dip env ''BiopsyUtility'' now
                         (now + utility_duration env ''BiopsyUtilityDuration''))
      | Some toScreenInitiatedBiopsy \<Rightarrow> Inr (handle_biopsy env person call now)
      | Some toTreatment \<Rightarrow> handle_treatment env person call now year
      | Some toRP \<Rightarrow> Inr (person, two_part_dip env ''Prostatectomy'' now)
      | Some toRT \<Rightarrow> Inr (person, two_part_dip env ''RadiationTherapy'' now)
      | Some toCM \<Rightarrow>
          Inr (person, utility_dip env ''ActiveSurveillanceUtility'' now
                         (now + utility_duration env ''ActiveSurveillanceUtilityDuration''))
      | Some toADT \<Rightarrow> Inr (person, [])
      | Some toUtility \<Rightarrow>
          (case msg_payload msg of
             Utility u \<Rightarrow> Inr (person\<lparr>fp_utility := u\<rparr>, [])
           | _ \<Rightarrow> Inr (person, []))
      | Some toUtilityChange \<Rightarrow>
          (case msg_payload msg of
             UtilityChange change \<Rightarrow> Inr (person\<lparr>fp_utility := fp_utility person + change\<rparr>, [])
           | _ \<Rightarrow> Inr (person, [])))"

text \<open>
  \<open>FhcrcPerson::handleMessage\<close>: the PSA value, the call of \<open>report.add\<close>, then the
  \<open>switch\<close>.
\<close>

definition FhcrcPerson_handleMessage ::
  "('tab, 'b) fhcrc_env_scheme \<Rightarrow> (fhcrc_globals \<times> FhcrcPerson) handler" where
  "FhcrcPerson_handleMessage env w now msg =
     (case w of (g, person) \<Rightarrow>
        (let call = fg_calls g;
             psa = y env call person (now - 35);
             year = now + fp_cohort person
         in case add (fg_report g)
                   (fp_state person, fp_ext_grade person, fp_dx person, psa \<ge> 3, fp_cohort person)
                   (msg_kind msg) (previousEventTime person) now of
              Inl e \<Rightarrow> Inl e
            | Inr report' \<Rightarrow>
                (case handle_kind env person call now psa year msg of
                   Inl e \<Rightarrow> Inl e
                 | Inr (person', cmds) \<Rightarrow>
                     Inr ((g\<lparr>fg_report := report', fg_calls := Suc call\<rparr>, person'), cmds))))"





section \<open>Observations of a run\<close>



text \<open>Entry \<open>a\<close> is dispatched before entry \<open>b\<close> in a sequence of dispatched entries.\<close>

definition dispatched_before :: "entry \<Rightarrow> entry \<Rightarrow> entry list \<Rightarrow> bool" where
  "dispatched_before a b es \<longleftrightarrow> a \<in> set (takeWhile (\<lambda>x. x \<noteq> b) es)"

text \<open>
  The queue entry that a handler's \<open>scheduleAt(now(), kind)\<close> inserts when the clock is
  \<open>t\<close> and the next insertion number is \<open>n\<close>.
\<close>

definition scheduled_now :: "real \<Rightarrow> nat \<Rightarrow> event_t \<Rightarrow> entry" where
  "scheduled_now t n ev =
     (t, n, \<lparr>msg_kind = event_short ev, msg_name = [], msg_sendingTime = t, msg_timestamp = t,
              msg_payload = NoPayload\<rparr>)"

fun is_schedule :: "cmd \<Rightarrow> bool" where
  "is_schedule (ScheduleAt t k n pl) = True"
| "is_schedule _ = False"

text \<open>The two death events, by kind, in each of the two models.\<close>

definition fhcrc_death :: "int \<Rightarrow> bool" where
  "fhcrc_death k \<longleftrightarrow> k = event_short toCancerDeath \<or> k = event_short toOtherDeath"


text \<open>
  Example data for the cancer model: an environment whose tables, utilities and draws
  are all constant; a report over the partition \<open>0 < 50 < 100\<close>; and a kernel state at
  clock \<open>0\<close> in which one \<open>toClinicalDiagnosis\<close> is pending for age \<open>60\<close>.
\<close>

definition example_env :: "(real \<times> base_grade_t) fhcrc_env" where
  "example_env =
     \<lparr>parameter = (\<lambda>n. 1), H_dist = (\<lambda>g. (0, g)), H_local = (\<lambda>k. k),
      H_local_age_set = age_set_of [50, 60, 70, 80],
      invert = (\<lambda>row x. fst row),
      utility_estimates = (\<lambda>n. 0), utility_duration = (\<lambda>n. 1),
      mubeta2 = (\<lambda>g. 0), sebeta2 = (\<lambda>g. 1), screen = Some noScreening,
      prtxCM = (\<lambda>key. 1), prtxRP = (\<lambda>key. 0), pradt = (\<lambda>key. 0),
      tableBiopsyCompliance = (\<lambda>key. 1), rescreen_shape = (\<lambda>key. 1),
      rescreen_scale = (\<lambda>key. 1), rescreen_cure = (\<lambda>key. 0),
      interp_prob_grade7 = (\<lambda>b. 0), rnd = (\<lambda>call site. 0)\<rparr>"


definition example_globals :: fhcrc_globals where
  "example_globals =
     \<lparr>fg_report = \<lparr>rep_max = 100, rep_partition = [0, 50, 100], rep_prev = Map.empty,
                    rep_pt = Map.empty, rep_events = Map.empty\<rparr>,
      fg_calls = 0\<rparr>"

definition diagnosis_pending :: Sim where
  "diagnosis_pending =
     \<lparr>sim_clock = 0,
      sim_queue = [(60, 0, \<lparr>msg_kind = event_short toClinicalDiagnosis, msg_name = [],
                             msg_sendingTime = 0, msg_timestamp = 60, msg_payload = NoPayload\<rparr>)],
      sim_sequence = 1, sim_running = False, sim_current_process = True\<rparr>"



section \<open>CalibPerson (calibperson-r.cc)\<close>
















section \<open>Properties of EventReport\<close>

lemma fold_max_sorted:
  "sorted_wrt (<) (a # as) \<Longrightarrow> fold max as a = last (a # as)" for a :: "'a::linorder"
proof (induction as arbitrary: a)
  case Nil
  then show ?case by simp
next
  case (Cons b bs)
  from Cons.prems have "a < b" by simp
  then have "max b a = b" by simp
  moreover have "sorted_wrt (<) (b # bs)" using Cons.prems by simp
  ultimately show ?case using Cons.IH [of b] by simp
qed

lemma setPartition_partitioned:
  "p \<noteq> [] \<Longrightarrow> sorted_wrt (<) p \<Longrightarrow> \<exists>r'. setPartition r p = Inr r' \<and> partitioned r'"
  by (cases p) (auto simp: setPartition_def partitioned_def fold_max_sorted simp del: sorted_wrt.simps)

lemma lookup0_map_incr:
  "lookup0 (map_incr m k d) k' = (if k' = k then lookup0 m k + d else lookup0 m k')"
  by (simp add: lookup0_def map_incr_def)

lemma dom_map_incr: "dom (map_incr m k d) = insert k (dom m)"
  by (simp add: map_incr_def)

lemma sum_lookup0_superset:
  "finite S \<Longrightarrow> dom m \<subseteq> S \<Longrightarrow> sum (lookup0 m) (dom m) = sum (lookup0 m) S"
  for m :: "'k \<rightharpoonup> real"
  by (rule sum.mono_neutral_left) (auto simp: lookup0_def split: option.splits)

lemma sum_map_incr:
  fixes m :: "'k \<rightharpoonup> real"
  assumes "finite (dom m)"
  shows "sum (lookup0 (map_incr m k d)) (dom (map_incr m k d)) = sum (lookup0 m) (dom m) + d"
proof -
  let ?S = "insert k (dom m)"
  have fin: "finite ?S" using assms by simp
  have "sum (lookup0 m) (dom m) = sum (lookup0 m) ?S"
    using fin by (rule sum_lookup0_superset) auto
  moreover have "sum (lookup0 (map_incr m k d)) ?S = sum (lookup0 m) ?S + d"
  proof -
    have "sum (lookup0 (map_incr m k d)) ?S
        = lookup0 (map_incr m k d) k + sum (lookup0 (map_incr m k d)) (?S - {k})"
      using sum.remove [OF fin, of k "lookup0 (map_incr m k d)"] by simp
    also have "sum (lookup0 (map_incr m k d)) (?S - {k}) = sum (lookup0 m) (?S - {k})"
      by (rule sum.cong) (auto simp: lookup0_map_incr)
    also have "lookup0 (map_incr m k d) k = lookup0 m k + d"
      by (simp add: lookup0_map_incr)
    finally show ?thesis using sum.remove [OF fin, of k "lookup0 m"] by simp
  qed
  ultimately show ?thesis by (simp add: dom_map_incr)
qed

lemma lower_bound_le: "lower_bound p x \<le> length p"
  by (simp add: lower_bound_def length_takeWhile_le)

lemma lower_bound_before: "i < lower_bound p x \<Longrightarrow> p ! i < x"
  unfolding lower_bound_def
  using nth_mem [of i "takeWhile (\<lambda>a. a < x) p"] set_takeWhileD [of "p ! i" "\<lambda>a. a < x" p]
  by (simp add: takeWhile_nth)

lemma lower_bound_at: "lower_bound p x < length p \<Longrightarrow> x \<le> p ! lower_bound p x"
  unfolding lower_bound_def
  using nth_length_takeWhile [of "\<lambda>a. a < x" p] by simp

lemma add_loop_fold:
  "it < length p \<Longrightarrow> itmax \<le> last p \<Longrightarrow>
   \<exists>j. it \<le> j \<and> j < length p \<and> itmax \<le> p ! j \<and> (\<forall>i. it \<le> i \<and> i < j \<longrightarrow> p ! i < itmax) \<and>
       add_loop p state lhs rhs itmax it r = Inr (j, add_fold p state lhs rhs it j r)"
  unfolding add_fold_def
proof (induction p state lhs rhs itmax it r rule: add_loop.induct)
  case (1 p state lhs rhs itmax it r)
  show ?case
  proof (cases "p ! it < itmax")
    case False
    then have "add_loop p state lhs rhs itmax it r = Inr (it, r)"
      using "1.prems" by (simp add: add_loop.simps)
    then show ?thesis using False "1.prems" by (intro exI [of _ it]) simp
  next
    case True
    have "p \<noteq> []" using "1.prems" by auto
    then have "it \<noteq> length p - 1"
      using True "1.prems" by (auto simp: last_conv_nth)
    then have next_ok: "it + 1 < length p" using "1.prems" by simp
    from "1.IH" [OF _ True _ next_ok "1.prems"(2)] next_ok
    obtain j where j: "it + 1 \<le> j" "j < length p" "itmax \<le> p ! j"
        "\<forall>i. it + 1 \<le> i \<and> i < j \<longrightarrow> p ! i < itmax"
        "add_loop p state lhs rhs itmax (it + 1) (add_body state lhs rhs (p ! it) (p ! (it + 1)) r) =
           Inr (j, fold (\<lambda>i. add_body state lhs rhs (p ! i) (p ! (i + 1))) [it + 1..<j]
                     (add_body state lhs rhs (p ! it) (p ! (it + 1)) r))"
      by auto
    have upt: "[it..<j] = it # [it + 1..<j]" using j(1) by (simp add: upt_conv_Cons)
    have "add_loop p state lhs rhs itmax it r =
        Inr (j, fold (\<lambda>i. add_body state lhs rhs (p ! i) (p ! (i + 1))) [it..<j] r)"
      using True next_ok j(5) by (subst add_loop.simps) (simp add: upt)
    moreover have "\<forall>i. it \<le> i \<and> i < j \<longrightarrow> p ! i < itmax"
      using j(4) True by (metis Suc_eq_plus1 Suc_leI le_neq_implies_less)
    ultimately show ?thesis using j(1,2,3) by (intro exI [of _ j]) simp
  qed
qed

lemma add_body_frame [simp]:
  "rep_events (add_body state lhs rhs a b r) = rep_events r"
  "rep_partition (add_body state lhs rhs a b r) = rep_partition r"
  "rep_max (add_body state lhs rhs a b r) = rep_max r"
  by (simp_all add: add_body_def Let_def)

lemma add_body_pt [simp]:
  "rep_pt (add_body state lhs rhs a b r) =
     map_incr (rep_pt r) (state, a) ((if b < rhs then b else rhs) - (if a < lhs then lhs else a))"
  by (simp add: add_body_def Let_def)

lemma add_body_prev_empty: "rep_prev (add_body state lhs lhs a b r) = rep_prev r"
  by (auto simp: add_body_def Let_def)

lemma add_fold_frame [simp]:
  "rep_events (add_fold p state lhs rhs it j r) = rep_events r"
  "rep_partition (add_fold p state lhs rhs it j r) = rep_partition r"
  "rep_max (add_fold p state lhs rhs it j r) = rep_max r"
  unfolding add_fold_def by (induction j) simp_all

lemma add_fold_prev_empty: "rep_prev (add_fold p state lhs lhs it j r) = rep_prev r"
  unfolding add_fold_def by (induction j) (simp_all add: add_body_prev_empty)

lemma add_fold_Suc:
  "it \<le> j \<Longrightarrow> add_fold p state lhs rhs it (Suc j) r =
     add_body state lhs rhs (p ! j) (p ! (j + 1)) (add_fold p state lhs rhs it j r)"
  by (simp add: add_fold_def)

lemma add_fold_empty [simp]: "j \<le> it \<Longrightarrow> add_fold p state lhs rhs it j r = r"
  by (simp add: add_fold_def)

lemma add_fold_finite:
  "finite (dom (rep_pt r)) \<Longrightarrow> finite (dom (rep_pt (add_fold p state lhs rhs it j r)))"
proof (induction j)
  case 0
  then show ?case by simp
next
  case (Suc j)
  then show ?case
    by (cases "it \<le> j") (simp_all add: add_fold_Suc dom_map_incr)
qed

lemma add_fold_pt_other:
  "(\<forall>i. it \<le> i \<and> i < j \<longrightarrow> k \<noteq> (state, p ! i)) \<Longrightarrow>
   rep_pt (add_fold p state lhs rhs it j r) k = rep_pt r k"
proof (induction j)
  case 0
  then show ?case by simp
next
  case (Suc j)
  show ?case
  proof (cases "it \<le> j")
    case True
    have "k \<noteq> (state, p ! j)" using Suc.prems True by simp
    moreover have "rep_pt (add_fold p state lhs rhs it j r) k = rep_pt r k"
      using Suc by simp
    ultimately show ?thesis using True by (simp add: add_fold_Suc map_incr_def)
  next
    case False
    then show ?thesis by simp
  qed
qed

lemma add_fold_pt_at:
  assumes "sorted_wrt (<) p" "j < length p" "i < length p"
  shows "lookup0 (rep_pt (add_fold p state lhs rhs it j r)) (state, p ! i) =
     lookup0 (rep_pt r) (state, p ! i) + (if it \<le> i \<and> i < j then credit p lhs rhs i else 0)"
  using assms(2)
proof (induction j)
  case 0
  then show ?case by simp
next
  case (Suc j)
  have dist: "distinct p" using assms(1) strict_sorted_iff by blast
  show ?case
  proof (cases "it \<le> j")
    case True
    have eq: "p ! i = p ! j \<longleftrightarrow> i = j"
      using dist assms(3) Suc.prems by (simp add: nth_eq_iff_index_eq)
    show ?thesis
      using True Suc eq
      by (auto simp: add_fold_Suc lookup0_map_incr credit_def)
  next
    case False
    then show ?thesis by simp
  qed
qed

lemma add_fold_total:
  assumes fin: "finite (dom (rep_pt r))"
    and "it \<le> j" "j < length p" "p ! it \<le> lhs" "it < j \<longrightarrow> lhs < p ! (it + 1)"
    and "\<forall>i. it < i \<and> i < j \<longrightarrow> p ! (it + 1) \<le> p ! i"
    and "\<forall>i. i < j \<longrightarrow> p ! i < rhs"
  shows "pt_total (add_fold p state lhs rhs it j r) =
     pt_total r + (if it = j then 0 else min (p ! j) rhs - lhs)"
  using assms(2-)
proof (induction j)
  case 0
  then show ?case by simp
next
  case (Suc j)
  show ?case
  proof (cases "it = Suc j")
    case True
    then show ?thesis by simp
  next
    case False
    then have le: "it \<le> j" using Suc.prems by simp
    have IH: "pt_total (add_fold p state lhs rhs it j r) =
        pt_total r + (if it = j then 0 else min (p ! j) rhs - lhs)"
      using Suc le by simp
    have step: "pt_total (add_fold p state lhs rhs it (Suc j) r) =
        pt_total (add_fold p state lhs rhs it j r) + credit p lhs rhs j"
      using le add_fold_finite [OF fin, of p state lhs rhs it j]
      by (simp add: add_fold_Suc pt_total_def sum_map_incr credit_def)
    show ?thesis
    proof (cases "it = j")
      case True
      then show ?thesis using step IH Suc.prems by (auto simp: credit_def min_def)
    next
      case False
      then have "it < j" using le by simp
      then have "lhs < p ! j" "p ! j < rhs" using Suc.prems by (auto simp: less_le_trans)
      then show ?thesis using step IH False \<open>it < j\<close> by (auto simp: credit_def min_def)
    qed
  qed
qed

lemma sorted_nth_less:
  "sorted_wrt (<) p \<Longrightarrow> i < j \<Longrightarrow> j < length p \<Longrightarrow> p ! i < p ! j" for p :: "real list"
  by (simp add: sorted_wrt_iff_nth_less)

lemma add_cases:
  assumes part: "partitioned r" and p: "p = rep_partition r"
    and lhs: "hd p \<le> lhs" "lhs \<le> rep_max r" "lhs \<le> rhs"
    and itmax: "itmax = (if rhs < rep_max r then rhs else rep_max r)"
  shows "\<exists>lo j. lo \<le> j \<and> j < length p \<and> p ! lo \<le> lhs \<and> (lo + 1 < length p \<longrightarrow> lhs < p ! (lo + 1)) \<and>
      itmax \<le> p ! j \<and> (\<forall>i. lo \<le> i \<and> i < j \<longrightarrow> p ! i < itmax) \<and>
      add r state event lhs rhs =
        (if rhs < rep_max r then
           (if j = 0 then Inl OutOfBounds
            else Inr ((add_fold p state lhs rhs lo j r)
                   \<lparr>rep_events := map_incr (rep_events r) (state, event, p ! (j - 1)) 1\<rparr>))
         else Inr (add_fold p state lhs rhs lo j r))"
proof -
  have ne: "p \<noteq> []" and srt: "sorted_wrt (<) p" and mx: "rep_max r = last p"
    using part p by (simp_all add: partitioned_def)
  define l0 where "l0 = lower_bound p lhs"
  have l0_lt: "l0 < length p"
  proof (rule ccontr)
    assume "\<not> l0 < length p"
    then have "length p - 1 < lower_bound p lhs" using ne l0_def by (cases p) auto
    then have "p ! (length p - 1) < lhs" by (rule lower_bound_before)
    then show False using lhs(2) mx ne by (simp add: last_conv_nth)
  qed
  have l0_ge: "lhs \<le> p ! l0" using l0_lt lower_bound_at l0_def by simp
  define lo where "lo = (if lhs < p ! l0 then l0 - 1 else l0)"
  have l0_pos: "lhs < p ! l0 \<Longrightarrow> 0 < l0"
    using lhs(1) ne by (cases "l0 = 0") (auto simp: hd_conv_nth)
  have lo_lt: "lo < length p" using l0_lt lo_def by auto
  have lo_le: "p ! lo \<le> lhs"
  proof (cases "lhs < p ! l0")
    case True
    then have "l0 - 1 < lower_bound p lhs" using l0_pos l0_def by simp
    then have "p ! (l0 - 1) < lhs" by (rule lower_bound_before)
    then show ?thesis using True lo_def by simp
  next
    case False
    then show ?thesis using l0_ge lo_def by simp
  qed
  have lo_next: "lo + 1 < length p \<longrightarrow> lhs < p ! (lo + 1)"
  proof (cases "lhs < p ! l0")
    case True
    then show ?thesis using l0_pos lo_def by simp
  next
    case False
    then have "lo = l0" "p ! l0 = lhs" using l0_ge lo_def by simp_all
    then show ?thesis using sorted_nth_less [OF srt, of lo "lo + 1"] by auto
  qed
  have start: "(case deref p (lower_bound p lhs) of Inl e \<Rightarrow> Inl e
      | Inr v \<Rightarrow> (case (if lhs < v then iter_dec (lower_bound p lhs) else Inr (lower_bound p lhs)) of
          Inl e \<Rightarrow> Inl e | Inr lo \<Rightarrow> f lo)) = f lo" for f :: "nat \<Rightarrow> error + ('a, 'b) EventReport"
    using l0_lt l0_pos by (auto simp: deref_def iter_dec_def lo_def l0_def [symmetric])
  have "itmax \<le> last p" using itmax mx by simp
  from add_loop_fold [OF lo_lt this, of state lhs rhs r]
  obtain j where j: "lo \<le> j" "j < length p" "itmax \<le> p ! j"
      "\<forall>i. lo \<le> i \<and> i < j \<longrightarrow> p ! i < itmax"
      "add_loop p state lhs rhs itmax lo r = Inr (j, add_fold p state lhs rhs lo j r)"
    by blast
  have "add r state event lhs rhs =
        (if rhs < rep_max r then
           (if j = 0 then Inl OutOfBounds
            else Inr ((add_fold p state lhs rhs lo j r)
                   \<lparr>rep_events := map_incr (rep_events r) (state, event, p ! (j - 1)) 1\<rparr>))
         else Inr (add_fold p state lhs rhs lo j r))"
    unfolding add_def Let_def p [symmetric] start itmax [symmetric]
    using j(2,5) by (auto simp: iter_dec_def deref_def)
  then show ?thesis using j(1-4) lo_le lo_next by blast
qed

lemma sorted_nth_le:
  "sorted_wrt (<) p \<Longrightarrow> i \<le> j \<Longrightarrow> j < length p \<Longrightarrow> p ! i \<le> p ! j" for p :: "real list"
  using sorted_nth_less [of p i j] by (cases "i = j") auto

lemma sorted_nth_last:
  fixes p :: "real list"
  assumes "sorted_wrt (<) p" "j < length p" "last p \<le> p ! j"
  shows "j = length p - 1"
proof (rule ccontr)
  assume "j \<noteq> length p - 1"
  then have "j < length p - 1" using assms(2) by simp
  then have "p ! j < p ! (length p - 1)" using assms(1) by (simp add: sorted_nth_less)
  moreover have "p \<noteq> []" using assms(2) by auto
  ultimately show False using assms(3) by (simp add: last_conv_nth)
qed

lemma add_defined:
  assumes "partitioned r" "hd (rep_partition r) \<le> lhs" "lhs \<le> rep_max r" "lhs \<le> rhs"
    and "hd (rep_partition r) < rhs \<or> rep_max r \<le> rhs"
  shows "\<exists>r'. add r state event lhs rhs = Inr r'"
proof -
  define p where "p = rep_partition r"
  have srt: "sorted_wrt (<) p" using assms(1) p_def by (simp add: partitioned_def)
  from add_cases [OF assms(1) p_def assms(2-4) [folded p_def] refl, of state event]
  obtain lo j where j: "lo \<le> j" "j < length p" "p ! lo \<le> lhs"
      "(if rhs < rep_max r then rhs else rep_max r) \<le> p ! j"
      "add r state event lhs rhs =
        (if rhs < rep_max r then
           (if j = 0 then Inl OutOfBounds
            else Inr ((add_fold p state lhs rhs lo j r)
                   \<lparr>rep_events := map_incr (rep_events r) (state, event, p ! (j - 1)) 1\<rparr>))
         else Inr (add_fold p state lhs rhs lo j r))"
    by blast
  show ?thesis
  proof (cases "rhs < rep_max r \<and> j = 0")
    case True
    then have "rhs \<le> p ! 0" using j(4) by simp
    moreover have "p \<noteq> []" using j(2) by auto
    ultimately have "rhs \<le> hd p" by (simp add: hd_conv_nth)
    then show ?thesis using assms(5) True p_def by simp
  next
    case False
    then show ?thesis using j(5) by auto
  qed
qed

lemma add_pt_total:
  assumes part: "partitioned r" and fin: "finite (dom (rep_pt r))"
    and lhs: "hd (rep_partition r) \<le> lhs" "lhs \<le> rep_max r" "lhs \<le> rhs"
    and res: "add r state event lhs rhs = Inr r'"
  shows "pt_total r' = pt_total r + (min rhs (rep_max r) - lhs) \<and> partitioned r' \<and>
     finite (dom (rep_pt r')) \<and> rep_partition r' = rep_partition r \<and> rep_max r' = rep_max r"
proof -
  define p where "p = rep_partition r"
  define itmax where "itmax = (if rhs < rep_max r then rhs else rep_max r)"
  have srt: "sorted_wrt (<) p" and mx: "rep_max r = last p"
    using part p_def by (simp_all add: partitioned_def)
  from add_cases [OF part p_def lhs [folded p_def] itmax_def, of state event]
  obtain lo j where j: "lo \<le> j" "j < length p" "p ! lo \<le> lhs"
      "lo + 1 < length p \<longrightarrow> lhs < p ! (lo + 1)" "itmax \<le> p ! j"
      "\<forall>i. lo \<le> i \<and> i < j \<longrightarrow> p ! i < itmax"
      "add r state event lhs rhs =
        (if rhs < rep_max r then
           (if j = 0 then Inl OutOfBounds
            else Inr ((add_fold p state lhs rhs lo j r)
                   \<lparr>rep_events := map_incr (rep_events r) (state, event, p ! (j - 1)) 1\<rparr>))
         else Inr (add_fold p state lhs rhs lo j r))"
    by blast
  define f where "f = add_fold p state lhs rhs lo j r"
  have r': "rep_pt r' = rep_pt f" "rep_partition r' = rep_partition r" "rep_max r' = rep_max r"
    using res j(7) by (auto simp: f_def split: if_splits)
  have itmax_le: "itmax \<le> rhs" by (simp add: itmax_def)
  have below: "\<forall>i. i < j \<longrightarrow> p ! i < rhs"
  proof (intro allI impI)
    fix i assume "i < j"
    show "p ! i < rhs"
    proof (cases "lo \<le> i")
      case True
      then show ?thesis using j(6) \<open>i < j\<close> itmax_le by fastforce
    next
      case False
      then have "p ! i < p ! lo" using srt j(1,2) by (simp add: sorted_nth_less)
      then show ?thesis using j(3) lhs(3) by simp
    qed
  qed
  have mono: "\<forall>i. lo < i \<and> i < j \<longrightarrow> p ! (lo + 1) \<le> p ! i"
    using srt j(2) by (auto intro!: sorted_nth_le)
  have tot: "pt_total f = pt_total r + (if lo = j then 0 else min (p ! j) rhs - lhs)"
    unfolding f_def using j(1-4) below mono
    by (intro add_fold_total [OF fin]) auto
  have "(if lo = j then 0 else min (p ! j) rhs - lhs) = min rhs (rep_max r) - lhs"
  proof (cases "lo = j")
    case True
    then have "itmax \<le> lhs" using j(3,5) by simp
    then show ?thesis using True lhs(2,3) by (auto simp: itmax_def min_def split: if_splits)
  next
    case False
    have "p ! j \<le> last p" using srt j(2)
      by (metis One_nat_def Suc_pred last_conv_nth length_greater_0_conv less_Suc_eq_le
          list.size(3) not_less_zero sorted_nth_le diff_less zero_less_one)
    then show ?thesis using False j(5) mx by (auto simp: itmax_def min_def split: if_splits)
  qed
  then have "pt_total r' = pt_total r + (min rhs (rep_max r) - lhs)"
    using tot r'(1) by (simp add: pt_total_def)
  moreover have "finite (dom (rep_pt r'))"
    using add_fold_finite [OF fin] r'(1) by (simp add: f_def)
  moreover have "partitioned r'" using part r'(2,3) by (simp add: partitioned_def)
  ultimately show ?thesis using r'(2,3) by simp
qed

lemma add_at_first_cutpoint:
  assumes "partitioned r" "hd (rep_partition r) < rep_max r"
  shows "add r state event (hd (rep_partition r)) (hd (rep_partition r)) = Inl OutOfBounds"
proof -
  obtain a as where p: "rep_partition r = a # as"
    using assms(1) by (cases "rep_partition r") (auto simp: partitioned_def)
  show ?thesis
    using assms(2)
    by (simp add: add_def p lower_bound_def deref_def add_loop.simps iter_dec_def)
qed

lemma add_past_partition:
  assumes "\<forall>a \<in> set (rep_partition r). a < lhs"
  shows "add r state event lhs rhs = Inl OutOfBounds"
proof -
  have "takeWhile (\<lambda>a. a < lhs) (rep_partition r) = rep_partition r"
    using assms by (simp add: takeWhile_eq_all_conv)
  then have "lower_bound (rep_partition r) lhs = length (rep_partition r)"
    unfolding lower_bound_def by (rule arg_cong)
  then show ?thesis by (simp add: add_def deref_def)
qed

subsection \<open>C10: the accesses of add\<close>

text \<open>
  Claim C10. On a report whose partition is non-empty and strictly increasing (with
  \<open>_max\<close> its last cutpoint), \<open>add\<close> reads the partition vector only inside its
  bounds whenever \<open>a\<^sub>0 < lhs \<le> a\<^sub>k\<close> and \<open>lhs \<le> rhs\<close>: it returns a report. The lower
  end of the precondition is needed: with \<open>lhs = rhs = a\<^sub>0 < _max\<close> the event is
  recorded through \<open>*(it-1)\<close> with \<open>it\<close> at \<open>begin()\<close>; and with \<open>lhs\<close> above every
  cutpoint \<open>lower_bound\<close> returns \<open>end()\<close>, which \<open>*lo\<close> reads.
\<close>

theorem add_in_bounds:
  assumes "partitioned r"
  shows "(hd (rep_partition r) < lhs \<and> lhs \<le> last (rep_partition r) \<and> lhs \<le> rhs \<longrightarrow>
            (\<exists>r'. add r state event lhs rhs = Inr r')) \<and>
         (hd (rep_partition r) < rep_max r \<longrightarrow>
            add r state event (hd (rep_partition r)) (hd (rep_partition r)) = Inl OutOfBounds) \<and>
         ((\<forall>a \<in> set (rep_partition r). a < lhs) \<longrightarrow>
            add r state event lhs rhs = Inl OutOfBounds)"
proof (intro conjI impI)
  assume a: "hd (rep_partition r) < lhs \<and> lhs \<le> last (rep_partition r) \<and> lhs \<le> rhs"
  then have "hd (rep_partition r) < rhs" by simp
  then show "\<exists>r'. add r state event lhs rhs = Inr r'"
    using add_defined [OF assms, of lhs rhs state event] a assms
    by (simp add: partitioned_def)
next
  assume "hd (rep_partition r) < rep_max r"
  then show "add r state event (hd (rep_partition r)) (hd (rep_partition r)) = Inl OutOfBounds"
    using assms by (rule add_at_first_cutpoint [rotated])
next
  assume "\<forall>a \<in> set (rep_partition r). a < lhs"
  then show "add r state event lhs rhs = Inl OutOfBounds" by (rule add_past_partition)
qed

theorem add_in_bounds_witness:
  "(\<exists>r'. add example_report 0 0 (1/2) (3/2) = Inr r') \<and>
   add example_report 0 0 0 0 = Inl OutOfBounds \<and>
   add example_report 0 0 3 4 = Inl OutOfBounds"
proof -
  have part: "partitioned example_report"
    by (simp add: partitioned_def example_report_def)
  have p: "rep_partition example_report = [0, 1, 2]" "rep_max example_report = 2"
    by (simp_all add: example_report_def)
  show ?thesis
    using add_in_bounds [OF part, of "1/2" "3/2" 0 0] add_in_bounds [OF part, of 0 0 0 0]
      add_in_bounds [OF part, of 3 4 0 0]
    by (simp add: p)
qed

lemma dispatch_times_Nil_iff [simp]: "dispatch_times ms = [] \<longleftrightarrow> ms = []"
  by (induction ms rule: dispatch_times.induct) auto

lemma report_dispatches_total:
  assumes "partitioned r" "finite (dom (rep_pt r))"
    and "hd (rep_partition r) \<le> prev" "prev \<le> rep_max r"
    and "ms \<noteq> []" "sorted (prev # dispatch_times ms)"
    and "hd (rep_partition r) < hd (dispatch_times ms)"
    and "\<forall>t \<in> set (butlast (dispatch_times ms)). t \<le> rep_max r"
  shows "\<exists>r'. report_dispatches r prev ms = Inr r' \<and>
     pt_total r' = pt_total r + (min (last (dispatch_times ms)) (rep_max r) - prev)"
  using assms
proof (induction ms arbitrary: r prev)
  case Nil
  then show ?case by simp
next
  case (Cons m ms)
  obtain state kind t where m: "m = (state, kind, t)" by (cases m) auto
  have t: "prev \<le> t" "hd (rep_partition r) < t" using Cons.prems m by simp_all
  from add_defined [OF Cons.prems(1,3,4) t(1), of state kind] t(2)
  obtain r1 where r1: "add r state kind prev t = Inr r1" by auto
  from add_pt_total [OF Cons.prems(1,2,3,4) t(1) r1]
  have r1_props: "pt_total r1 = pt_total r + (min t (rep_max r) - prev)" "partitioned r1"
      "finite (dom (rep_pt r1))" "rep_partition r1 = rep_partition r" "rep_max r1 = rep_max r"
    by simp_all
  show ?case
  proof (cases "ms = []")
    case True
    then show ?thesis using r1 r1_props(1) m by simp
  next
    case False
    have t_le: "t \<le> rep_max r" using Cons.prems(8) False m by simp
    have srt: "sorted (t # dispatch_times ms)" using Cons.prems(6) m by simp
    have "t \<le> hd (dispatch_times ms)" using srt False by (cases ms) auto
    then have first: "hd (rep_partition r1) < hd (dispatch_times ms)"
      using t(2) r1_props(4) by simp
    have rest: "\<forall>u \<in> set (butlast (dispatch_times ms)). u \<le> rep_max r1"
      using Cons.prems(8) False r1_props(5) m by simp
    have lo: "hd (rep_partition r1) \<le> t" "t \<le> rep_max r1"
      using t(2) t_le r1_props(4,5) by simp_all
    from Cons.IH [OF r1_props(2,3) lo False srt first rest]
    obtain r' where r': "report_dispatches r1 t ms = Inr r'"
        "pt_total r' = pt_total r1 + (min (last (dispatch_times ms)) (rep_max r1) - t)"
      by blast
    show ?thesis
      using r' r1 r1_props(1,5) m False t_le by (simp add: min_def)
  qed
qed

subsection \<open>C1: the person-time of one individual\<close>

text \<open>
  Claim C1, amended. An individual's run is a non-empty sequence of dispatched messages,
  the last one the death event at \<open>death_age\<close>; the handler records
  \<open>[previousEventTime, now())\<close> at each of them, starting from \<open>previousEventTime = 0\<close>.
  The person-time the run adds to the report, summed over all states and buckets, is
  \<open>min(death_age, _max)\<close>, when the partition is strictly increasing and starts at age
  \<open>0\<close> (and the report holds finitely many entries, as a \<open>std::map\<close> does), the
  messages come in time order (as the kernel dispatches them), the first message comes
  after time \<open>0\<close> and every message but the last comes no later than \<open>_max\<close>. The two bounds are what
  the claim lacks: \<open>add\<close> does not check its arguments. In
  \<open>person_time_out_of_bounds\<close> below, on the partition \<open>0 < 1 < 2\<close>, a run with messages
  at \<open>2.5\<close> and \<open>3\<close> calls \<open>add\<close> with \<open>lhs = 2.5\<close> at its second message, above
  every cutpoint, where \<open>lower_bound\<close> returns \<open>end()\<close> and \<open>*lo\<close> reads it; and a run
  whose only message comes at time \<open>0\<close> records its event through \<open>*(it-1)\<close> with \<open>it\<close>
  at \<open>begin()\<close>. The sum is exact for an exact \<open>T\<close>; the rounding of \<open>double\<close> is not
  modelled.
\<close>

theorem person_time_sum:
  assumes "partitioned r" "finite (dom (rep_pt r))" "hd (rep_partition r) = 0"
    and "ms \<noteq> []" "sorted (dispatch_times ms)" "0 < hd (dispatch_times ms)"
    and "\<forall>t \<in> set (butlast (dispatch_times ms)). t \<le> rep_max r"
    and "death_age = last (dispatch_times ms)"
  shows "\<exists>r'. report_dispatches r 0 ms = Inr r' \<and>
     pt_total r' - pt_total r = min death_age (rep_max r)"
proof -
  have mx: "0 \<le> rep_max r"
  proof -
    have "rep_partition r \<noteq> []" "sorted_wrt (<) (rep_partition r)"
      using assms(1) by (simp_all add: partitioned_def)
    then have "hd (rep_partition r) \<le> last (rep_partition r)"
      using sorted_nth_le [of "rep_partition r" 0 "length (rep_partition r) - 1"]
      by (simp add: hd_conv_nth last_conv_nth)
    then show ?thesis using assms(1,3) by (simp add: partitioned_def)
  qed
  have srt: "sorted (0 # dispatch_times ms)"
  proof -
    have "\<forall>t \<in> set (dispatch_times ms). hd (dispatch_times ms) \<le> t"
      using assms(4,5) by (cases ms) auto
    then have "\<forall>t \<in> set (dispatch_times ms). 0 \<le> t" using assms(6) by fastforce
    then show ?thesis using assms(5) by simp
  qed
  have first: "hd (rep_partition r) < hd (dispatch_times ms)" using assms(3,6) by simp
  have lo: "hd (rep_partition r) \<le> 0" using assms(3) by simp
  from report_dispatches_total [OF assms(1,2) lo mx assms(4) srt first assms(7)]
  show ?thesis using assms(8) by auto
qed

theorem person_time_sum_witness:
  "\<exists>r'. report_dispatches example_report 0 [(0, 1, 1/2), (1, 2, 3/2)] = Inr r' \<and>
     pt_total r' - pt_total example_report = min (3/2) (rep_max example_report)"
proof -
  have part: "partitioned example_report"
    by (simp add: partitioned_def example_report_def)
  have fin: "finite (dom (rep_pt example_report))" "hd (rep_partition example_report) = 0"
    "rep_max example_report = 2"
    by (simp_all add: example_report_def)
  show ?thesis
    using person_time_sum [OF part fin(1,2), of "[(0, 1, 1/2), (1, 2, 3/2)]" "3/2"]
    by (simp add: fin(3))
qed

theorem person_time_out_of_bounds:
  "partitioned example_report \<and> hd (rep_partition example_report) = 0 \<and>
   rep_max example_report = 2 \<and>
   report_dispatches example_report 0 [(0, 1, 5/2), (0, 2, 3)] = Inl OutOfBounds \<and>
   report_dispatches example_report 0 [(0, 2, 0)] = Inl OutOfBounds"
  by (simp add: partitioned_def example_report_def add_def lower_bound_def deref_def iter_dec_def
      add_loop.simps add_body_def map_incr_def lookup0_def Let_def)


subsection \<open>C2: intervals that reach _max\<close>

text \<open>
  Claim C2, amended. For a strictly increasing partition and an interval with
  \<open>a\<^sub>0 \<le> lhs \<le> _max \<le> rhs\<close>, \<open>add\<close> credits person-time up to \<open>_max\<close> only: every
  bucket \<open>[a\<^sub>i, a\<^sub>i\<^sub>+\<^sub>1)\<close> that the interval meets (\<open>lhs < a\<^sub>i\<^sub>+\<^sub>1\<close>) receives
  \<open>min(a\<^sub>i\<^sub>+\<^sub>1, rhs) - max(a\<^sub>i, lhs)\<close>, no other person-time entry changes, the total
  credited is \<open>_max - lhs\<close>, and the events map is left as it was. The bound
  \<open>lhs \<le> _max\<close> is what the claim lacks: above it \<open>add\<close> reads \<open>end()\<close>
  (\<open>add_beyond_max\<close> below).
\<close>

theorem add_truncates:
  assumes part: "partitioned r" and p: "p = rep_partition r"
    and lhs: "hd p \<le> lhs" "lhs \<le> rep_max r" and rhs: "rep_max r \<le> rhs"
  shows "\<exists>r'. add r state event lhs rhs = Inr r' \<and>
      rep_events r' = rep_events r \<and>
      (\<forall>i. i + 1 < length p \<longrightarrow>
         lookup0 (rep_pt r') (state, p ! i) = lookup0 (rep_pt r) (state, p ! i) +
           (if lhs < p ! (i + 1) then min (p ! (i + 1)) rhs - max (p ! i) lhs else 0)) \<and>
      (\<forall>k. (\<forall>i. i + 1 < length p \<longrightarrow> k \<noteq> (state, p ! i)) \<longrightarrow> rep_pt r' k = rep_pt r k) \<and>
      (finite (dom (rep_pt r)) \<longrightarrow> pt_total r' = pt_total r + (rep_max r - lhs))"
proof -
  have srt: "sorted_wrt (<) p" and mx: "rep_max r = last p"
    using part p by (simp_all add: partitioned_def)
  have le: "lhs \<le> rhs" using lhs(2) rhs by simp
  from add_cases [OF part p lhs le refl, of state event]
  obtain lo j where j: "lo \<le> j" "j < length p" "p ! lo \<le> lhs"
      "lo + 1 < length p \<longrightarrow> lhs < p ! (lo + 1)" "rep_max r \<le> p ! j"
      "add r state event lhs rhs = Inr (add_fold p state lhs rhs lo j r)"
    using rhs by auto
  define r' where "r' = add_fold p state lhs rhs lo j r"
  have jk: "j = length p - 1" using sorted_nth_last [OF srt j(2)] j(5) mx by simp
  have at: "lookup0 (rep_pt r') (state, p ! i) = lookup0 (rep_pt r) (state, p ! i) +
      (if lhs < p ! (i + 1) then min (p ! (i + 1)) rhs - max (p ! i) lhs else 0)"
    if i: "i + 1 < length p" for i
  proof -
    have ij: "i < j" "i < length p" using i jk by simp_all
    have "lo \<le> i \<longleftrightarrow> lhs < p ! (i + 1)"
    proof
      assume "lo \<le> i"
      then have "p ! (lo + 1) \<le> p ! (i + 1)" using srt i by (intro sorted_nth_le) auto
      moreover have "lo + 1 < length p" using \<open>lo \<le> i\<close> i by simp
      ultimately show "lhs < p ! (i + 1)" using j(4) by simp
    next
      assume a: "lhs < p ! (i + 1)"
      show "lo \<le> i"
      proof (rule ccontr)
        assume "\<not> lo \<le> i"
        then have "p ! (i + 1) \<le> p ! lo" using srt j(1,2) by (intro sorted_nth_le) auto
        then show False using a j(3) by simp
      qed
    qed
    moreover have "credit p lhs rhs i = min (p ! (i + 1)) rhs - max (p ! i) lhs"
      by (auto simp: credit_def min_def max_def)
    ultimately show ?thesis
      using add_fold_pt_at [OF srt j(2) ij(2), of state lhs rhs lo r] ij(1)
      by (simp add: r'_def)
  qed
  have other: "rep_pt r' k = rep_pt r k" if "\<forall>i. i + 1 < length p \<longrightarrow> k \<noteq> (state, p ! i)" for k
  proof -
    have "\<forall>i. lo \<le> i \<and> i < j \<longrightarrow> k \<noteq> (state, p ! i)"
    proof (intro allI impI)
      fix i assume "lo \<le> i \<and> i < j"
      then have "i + 1 < length p" using jk by auto
      then show "k \<noteq> (state, p ! i)" using that by blast
    qed
    then show ?thesis unfolding r'_def by (rule add_fold_pt_other)
  qed
  have total: "pt_total r' = pt_total r + (rep_max r - lhs)" if "finite (dom (rep_pt r))"
    using add_pt_total [OF part that lhs [unfolded p] le j(6) [unfolded p]] rhs
    by (simp add: r'_def p min_def)
  show ?thesis
    using j(6) at other total by (intro exI [of _ r']) (simp add: r'_def)
qed

theorem add_truncates_witness:
  "\<exists>r'. add example_report 0 0 (1/2) 3 = Inr r' \<and>
     rep_events r' = rep_events example_report \<and>
     lookup0 (rep_pt r') (0, 0) = 1/2 \<and> lookup0 (rep_pt r') (0, 1) = 1 \<and>
     pt_total r' = pt_total example_report + 3/2"
proof -
  have part: "partitioned example_report"
    by (simp add: partitioned_def example_report_def)
  have p: "[0, 1, 2] = rep_partition example_report"
    by (simp add: example_report_def)
  have mx: "rep_max example_report = 2" and pt: "rep_pt example_report = Map.empty"
    by (simp_all add: example_report_def)
  from add_truncates [OF part p, of "1/2" 3 0 0]
  obtain r' where r': "add example_report 0 0 (1/2) 3 = Inr r'"
      "rep_events r' = rep_events example_report"
      "\<forall>i. i + 1 < length [0, 1, 2 :: real] \<longrightarrow>
         lookup0 (rep_pt r') (0, [0, 1, 2] ! i) = lookup0 (rep_pt example_report) (0, [0, 1, 2] ! i) +
           (if (1/2 :: real) < [0, 1, 2] ! (i + 1)
            then min ([0, 1, 2] ! (i + 1)) 3 - max ([0, 1, 2] ! i) (1/2) else 0)"
      "pt_total r' = pt_total example_report + (2 - 1/2)"
    by (auto simp: mx pt)
  have "lookup0 (rep_pt r') (0, 0) = 1/2" using r'(3) [rule_format, of 0] by (simp add: pt lookup0_def)
  moreover have "lookup0 (rep_pt r') (0, 1) = 1" using r'(3) [rule_format, of 1] by (simp add: pt lookup0_def)
  ultimately show ?thesis using r'(1,2,4) by simp
qed

theorem add_beyond_max:
  "hd (rep_partition example_report) \<le> 3 \<and> (3::real) \<le> 4 \<and> rep_max example_report \<le> 4 \<and>
   add example_report 0 0 3 4 = Inl OutOfBounds"
  by (simp add: add_def example_report_def lower_bound_def deref_def)

lemma bucket_containing_nth:
  "sorted_wrt (<) p \<Longrightarrow> i + 1 < length p \<Longrightarrow> p ! i \<le> x \<Longrightarrow> x < p ! (i + 1) \<Longrightarrow>
   bucket_containing p x = Some (p ! i)"
proof (induction p x arbitrary: i rule: bucket_containing.induct)
  case (1 a b as x)
  show ?case
  proof (cases i)
    case 0
    then show ?thesis using "1.prems" by simp
  next
    case (Suc n)
    have "b \<le> (b # as) ! n"
      using "1.prems"(1,2) Suc sorted_nth_le [of "b # as" 0 n] by simp
    then have "b \<le> x" using "1.prems"(3) Suc by simp
    then have "\<not> (a \<le> x \<and> x < b)" by simp
    moreover have "bucket_containing (b # as) x = Some ((b # as) ! n)"
      using "1.IH" [OF \<open>\<not> (a \<le> x \<and> x < b)\<close>, of n] "1.prems" Suc by simp
    ultimately show ?thesis using Suc by auto
  qed
qed simp_all

lemma add_body_credit:
  "rep_pt (add_body state lhs rhs (p ! i) (p ! Suc i) r) =
     map_incr (rep_pt r) (state, p ! i) (credit p lhs rhs i)"
  by (simp add: credit_def)

lemma add_fold_pt_zero:
  "(\<forall>i. it \<le> i \<and> i < j \<longrightarrow> credit p lhs rhs i = 0) \<Longrightarrow>
   lookup0 (rep_pt (add_fold p state lhs rhs it j r)) k = lookup0 (rep_pt r) k"
proof (induction j arbitrary: k)
  case 0
  then show ?case by simp
next
  case (Suc j)
  show ?case
  proof (cases "it \<le> j")
    case True
    have "credit p lhs rhs j = 0" using Suc.prems True by simp
    moreover have "lookup0 (rep_pt (add_fold p state lhs rhs it j r)) k' = lookup0 (rep_pt r) k'" for k'
      using Suc by simp
    ultimately show ?thesis using True
      by (simp add: add_fold_Suc add_body_credit lookup0_map_incr del: add_body_pt)
  next
    case False
    then show ?thesis by simp
  qed
qed

subsection \<open>C7: the bucket of the event\<close>

text \<open>
  Claim C7, amended. For an interval with \<open>a\<^sub>0 \<le> lhs \<le> rhs < _max\<close> and \<open>a\<^sub>0 < rhs\<close>,
  \<open>add\<close> adds one to \<open>events[state][event][a]\<close> where \<open>a\<close> is the greatest cutpoint
  strictly below \<open>rhs\<close>, and changes no other event count. That is the bucket
  \<open>[a\<^sub>i, a\<^sub>i\<^sub>+\<^sub>1)\<close> containing \<open>rhs\<close> unless \<open>rhs\<close> is itself a cutpoint; an event at a
  cutpoint is counted in the bucket that ends there. When \<open>lhs = rhs\<close> the event is
  still credited, the prevalence map is unchanged and every person-time value is
  unchanged (the bucket of \<open>lhs\<close> may gain an entry of value \<open>0\<close>).
  \<open>add_event_at_cutpoint\<close> below shows the two inputs on which the claim as first stated
  fails: \<open>rhs\<close> on a cutpoint, and \<open>lhs = rhs = a\<^sub>0\<close>.
\<close>

theorem add_event_bucket:
  assumes part: "partitioned r" and p: "p = rep_partition r"
    and lhs: "hd p \<le> lhs" "lhs \<le> rhs" and rhs: "rhs < rep_max r" "hd p < rhs"
  shows "\<exists>r' a. add r state event lhs rhs = Inr r' \<and>
      a \<in> set p \<and> a < rhs \<and> (\<forall>b \<in> set p. b < rhs \<longrightarrow> b \<le> a) \<and>
      rep_events r' = map_incr (rep_events r) (state, event, a) 1 \<and>
      (rhs \<notin> set p \<longrightarrow> bucket_containing p rhs = Some a) \<and>
      (lhs = rhs \<longrightarrow> rep_prev r' = rep_prev r \<and> (\<forall>k. lookup0 (rep_pt r') k = lookup0 (rep_pt r) k))"
proof -
  have srt: "sorted_wrt (<) p" and mx: "rep_max r = last p" and ne: "p \<noteq> []"
    using part p by (simp_all add: partitioned_def)
  have le: "lhs \<le> rep_max r" using lhs(2) rhs(1) by simp
  from add_cases [OF part p lhs(1) le lhs(2) refl, of state event]
  obtain lo j where j: "lo \<le> j" "j < length p" "p ! lo \<le> lhs"
      "lo + 1 < length p \<longrightarrow> lhs < p ! (lo + 1)" "rhs \<le> p ! j"
      "\<forall>i. lo \<le> i \<and> i < j \<longrightarrow> p ! i < rhs"
      "add r state event lhs rhs =
         (if j = 0 then Inl OutOfBounds
          else Inr ((add_fold p state lhs rhs lo j r)
                 \<lparr>rep_events := map_incr (rep_events r) (state, event, p ! (j - 1)) 1\<rparr>))"
    using rhs(1) by auto
  have j_pos: "0 < j"
  proof (rule ccontr)
    assume "\<not> 0 < j"
    then have "rhs \<le> hd p" using j(5) ne by (simp add: hd_conv_nth)
    then show False using rhs(2) by simp
  qed
  define a where "a = p ! (j - 1)"
  define r' where "r' = (add_fold p state lhs rhs lo j r)
      \<lparr>rep_events := map_incr (rep_events r) (state, event, a) 1\<rparr>"
  have res: "add r state event lhs rhs = Inr r'" using j(7) j_pos by (simp add: r'_def a_def)
  have a_in: "a \<in> set p" using j(2) by (simp add: a_def)
  have a_lt: "a < rhs"
  proof (cases "lo < j")
    case True
    then show ?thesis using j(6) j_pos by (simp add: a_def)
  next
    case False
    then have "p ! j \<le> rhs" using j(1,3) lhs(2) by simp
    moreover have "p ! (j - 1) < p ! j" using srt j(2) j_pos by (simp add: sorted_nth_less)
    ultimately show ?thesis by (simp add: a_def)
  qed
  have greatest: "\<forall>b \<in> set p. b < rhs \<longrightarrow> b \<le> a"
  proof (intro ballI impI)
    fix b assume "b \<in> set p" "b < rhs"
    then obtain i where i: "i < length p" "b = p ! i" by (auto simp: in_set_conv_nth)
    have "i < j"
    proof (rule ccontr)
      assume "\<not> i < j"
      then have "p ! j \<le> p ! i" using srt i(1) by (intro sorted_nth_le) auto
      then show False using \<open>b < rhs\<close> i(2) j(5) by simp
    qed
    then have "p ! i \<le> p ! (j - 1)" using srt j(2) by (intro sorted_nth_le) auto
    then show "b \<le> a" using i(2) by (simp add: a_def)
  qed
  have bucket: "bucket_containing p rhs = Some a" if "rhs \<notin> set p"
  proof -
    have "rhs \<noteq> p ! j" using that j(2) by (metis nth_mem)
    then have "rhs < p ! (j - 1 + 1)" using j(5) j_pos by simp
    moreover have "j - 1 + 1 < length p" using j(2) j_pos by simp
    ultimately show ?thesis
      using bucket_containing_nth [OF srt, of "j - 1" rhs] a_lt by (simp add: a_def)
  qed
  have empty: "rep_prev r' = rep_prev r \<and> (\<forall>k. lookup0 (rep_pt r') k = lookup0 (rep_pt r) k)"
    if eq: "lhs = rhs"
  proof -
    have zero: "\<forall>i. lo \<le> i \<and> i < j \<longrightarrow> credit p lhs rhs i = 0"
    proof (intro allI impI)
      fix i assume i: "lo \<le> i \<and> i < j"
      then have "p ! i < rhs" using j(6) by simp
      moreover have "lo + 1 < length p" using i j(2) by simp
      then have "lhs < p ! (lo + 1)" using j(4) by simp
      moreover have "p ! (lo + 1) \<le> p ! (i + 1)" using srt i j(2) by (intro sorted_nth_le) auto
      ultimately show "credit p lhs rhs i = 0" using eq by (simp add: credit_def)
    qed
    have "lookup0 (rep_pt r') k = lookup0 (rep_pt r) k" for k
      using add_fold_pt_zero [OF zero, of state r k] by (simp add: r'_def)
    moreover have "rep_prev r' = rep_prev r"
      using eq by (simp add: r'_def add_fold_prev_empty)
    ultimately show ?thesis by simp
  qed
  show ?thesis
    using res a_in a_lt greatest bucket empty
    by (intro exI [of _ r'] exI [of _ a]) (simp add: r'_def)
qed

theorem add_event_bucket_witness:
  "\<exists>r'. add example_report 0 0 (1/2) (3/2) = Inr r' \<and>
     rep_events r' = map_incr (rep_events example_report) (0, 0, 1) 1 \<and>
     bucket_containing [0, 1, 2] (3/2) = Some 1"
proof -
  have part: "partitioned example_report"
    by (simp add: partitioned_def example_report_def)
  have p: "[0, 1, 2] = rep_partition example_report"
    by (simp add: example_report_def)
  have mx: "rep_max example_report = 2"
    by (simp add: example_report_def)
  from add_event_bucket [OF part p, of "1/2" "3/2" 0 0]
  obtain r' a where r': "add example_report 0 0 (1/2) (3/2) = Inr r'"
      "rep_events r' = map_incr (rep_events example_report) (0, 0, a) 1"
      "bucket_containing [0, 1, 2] (3/2) = Some a"
    by (auto simp: mx)
  then have "a = 1" by simp
  then show ?thesis using r' by simp
qed

theorem add_event_at_cutpoint:
  "add example_report 0 0 (1/2) 1 =
     Inr (example_report\<lparr>rep_pt := [(0, 0) \<mapsto> 1/2], rep_events := [(0, 0, 0) \<mapsto> 1]\<rparr>) \<and>
   bucket_containing [0, 1, 2] 1 = Some 1 \<and>
   add example_report 0 0 0 0 = Inl OutOfBounds"
  by (simp add: add_def example_report_def lower_bound_def deref_def iter_dec_def add_loop.simps
      add_body_def map_incr_def lookup0_def)

section \<open>Properties of calculate_survival\<close>

lemma set_set_insert [simp]: "set (set_insert x s) = insert x (set s)"
  by (induction s) auto

lemma sorted_set_insert: "sorted_wrt (>) s \<Longrightarrow> sorted_wrt (>) (set_insert x s)"
  by (induction s) auto

lemma age_set_of_props:
  "set (age_set_of sl_ages) = set sl_ages \<and> sorted_wrt (>) (age_set_of sl_ages)"
proof -
  have "set (fold set_insert xs acc) = set xs \<union> set acc \<and>
      (sorted_wrt (>) acc \<longrightarrow> sorted_wrt (>) (fold set_insert xs acc))" for xs acc
    by (induction xs arbitrary: acc) (auto simp: sorted_set_insert)
  from this [of sl_ages "[]"] show ?thesis by (simp add: age_set_of_def)
qed

lemma set_lower_bound_greatest:
  assumes "sorted_wrt (>) s" "k \<in> set s" "k \<le> x" "\<forall>k' \<in> set s. k' \<le> x \<longrightarrow> k' \<le> k"
  shows "set_lower_bound s x = Some k"
  using assms unfolding set_lower_bound_def
proof (induction s)
  case Nil
  then show ?case by simp
next
  case (Cons a s)
  show ?case
  proof (cases "a > x")
    case True
    then have "k \<noteq> a" using Cons.prems(3) by auto
    then show ?thesis using Cons True by auto
  next
    case False
    then have "a \<le> k" using Cons.prems(4) by simp
    moreover have "k \<le> a" using Cons.prems(1,2) by auto
    ultimately show ?thesis using False by simp
  qed
qed

lemma set_lower_bound_none:
  "\<forall>k \<in> set s. x < k \<Longrightarrow> set_lower_bound s x = None"
  unfolding set_lower_bound_def by (induction s) auto

subsection \<open>C5: the row of the localised survival table\<close>

text \<open>
  Claim C5, amended. In the localised branch (\<open>age_diag < tm + 35\<close>) the row that
  \<open>calculate_survival\<close> inverts is \<open>H_local[k, grade]\<close> where \<open>k\<close> is the largest age key
  of the table that is less than or equal to \<open>bounds(age_diag, 50, 80)\<close>, for a table
  that has such a key: on a set ordered by \<open>greater<double>\<close>, \<open>lower_bound(x)\<close> is
  the first element not greater than \<open>x\<close>. \<open>survival_row_not_ceil\<close> below has the keys
  \<open>50, 60, 70, 80\<close> and the age \<open>65\<close>: the row used is that of \<open>60\<close>, the smallest key
  not below \<open>65\<close> is \<open>70\<close>.
\<close>

theorem survival_row:
  assumes "age_diag < fp_tm person + 35"
    and "H_local_age_set env = age_set_of sl_ages"
    and "k \<in> set sl_ages" "k \<le> bounds age_diag 50 80"
    and "\<forall>k' \<in> set sl_ages. k' \<le> bounds age_diag 50 80 \<longrightarrow> k' \<le> k"
  shows "calculate_survival env person u age_diag age_c tx =
     Inr (age_c + invert env (H_local env (k, fp_grade person))
                    (- ln (survival_ustar env person u age_diag age_c tx)))"
proof -
  have "set_lower_bound (H_local_age_set env) (bounds age_diag 50 80) = Some k"
    using assms(2-5) age_set_of_props [of sl_ages]
    by (intro set_lower_bound_greatest) simp_all
  then show ?thesis using assms(1) by (simp add: calculate_survival_def)
qed

theorem survival_row_witness:
  "calculate_survival example_tables example_person (1/2) 65 65 no_treatment =
     Inr (65 + invert example_tables (H_local example_tables (60, fp_grade example_person))
                  (- ln (survival_ustar example_tables example_person (1/2) 65 65 no_treatment)))"
proof -
  have "(65::real) < fp_tm example_person + 35" by (simp add: example_person_def)
  moreover have "H_local_age_set example_tables = age_set_of [50, 60, 70, 80, 60, 50]"
    by (simp add: example_tables_def)
  ultimately show ?thesis
    using survival_row [of 65 example_person example_tables "[50, 60, 70, 80, 60, 50]" 60]
    by (simp add: bounds_def)
qed

theorem survival_row_not_ceil:
  "(65::real) < fp_tm example_person + 35 \<and>
   ceil_age [50, 60, 70, 80, 60, 50] (bounds 65 50 80) = Some 70 \<and>
   H_local_age_set example_tables = age_set_of [50, 60, 70, 80, 60, 50] \<and>
   calculate_survival example_tables example_person (1/2) 65 65 no_treatment = Inr (65 + 60) \<and>
   65 + invert example_tables (H_local example_tables (70, fp_grade example_person))
          (- ln (survival_ustar example_tables example_person (1/2) 65 65 no_treatment)) = 65 + 70"
  by (simp add: calculate_survival_def example_tables_def example_person_def age_set_of_def
      set_lower_bound_def bounds_def ceil_age_def)

lemma survival_ustar_mono:
  assumes "0 < u1" "u1 < u2"
    and "0 < parameter env ''c_baseline_specific''" "0 < parameter env ''sxbenefit''"
  shows "0 < survival_ustar env person u1 age_diag age_c tx \<and>
     survival_ustar env person u1 age_diag age_c tx < survival_ustar env person u2 age_diag age_c tx"
proof -
  define txhaz :: real where
    "txhaz = (if age_diag < fp_tm person + 35 \<and> (tx = RP \<or> tx = RT) then 0.62 else 1)"
  define txbenefit where
    "txbenefit = exp (ln txhaz + ln (parameter env ''c_txlt_interaction'') * (age_c - age_diag))"
  define c where
    "c = 1 / (parameter env ''c_baseline_specific'' * txbenefit * parameter env ''sxbenefit'')"
  have "0 < txbenefit" by (simp add: txbenefit_def)
  then have c: "0 < c" using assms(3,4) by (simp add: c_def)
  have eq: "survival_ustar env person u age_diag age_c tx = u powr c" for u
    by (simp add: survival_ustar_def Let_def c_def txbenefit_def txhaz_def)
  have "u1 powr c < u2 powr c" using c assms(1,2) by (intro powr_less_mono2) simp_all
  moreover have "0 < u1 powr c" using assms(1) by simp
  ultimately show ?thesis by (simp add: eq)
qed

subsection \<open>C6: calculate_survival as a function of u\<close>

text \<open>
  Claim C6, amended. For fixed \<open>(age_diag, age_c, tx)\<close> and \<open>0 < u\<^sub>1 < u\<^sub>2 < 1\<close>, with a
  monotone non-decreasing \<open>invert\<close> and positive \<open>c_baseline_specific\<close>, \<open>sxbenefit\<close>
  and \<open>c_txlt_interaction\<close>, the ages at death satisfy \<open>age_d(u\<^sub>2) \<le> age_d(u\<^sub>1)\<close>:
  \<open>calculate_survival\<close> is non-increasing in \<open>u\<close>, since \<open>ustar\<close> grows with \<open>u\<close> and
  the row is inverted at \<open>-log(ustar)\<close>. Whether the age-set lookup succeeds does not
  depend on \<open>u\<close>. \<open>survival_not_monotone\<close> below: with \<open>invert\<close> the identity and all
  three parameters \<open>1\<close>, \<open>u\<^sub>1 = e\<^sup>-\<^sup>2\<close> gives \<open>82\<close> and the larger \<open>u\<^sub>2 = e\<^sup>-\<^sup>1\<close> gives \<open>81\<close>.
\<close>

theorem survival_antitone:
  assumes "0 < u1" "u1 < u2" "u2 < 1"
    and "0 < parameter env ''c_baseline_specific''" "0 < parameter env ''sxbenefit''"
    and "0 < parameter env ''c_txlt_interaction''"
    and "\<forall>row. mono (invert env row)"
  shows "case (calculate_survival env person u1 age_diag age_c tx,
               calculate_survival env person u2 age_diag age_c tx) of
           (Inr age_d1, Inr age_d2) \<Rightarrow> age_d2 \<le> age_d1
         | (Inl e1, Inl e2) \<Rightarrow> e1 = e2
         | _ \<Rightarrow> False"
proof -
  from survival_ustar_mono [OF assms(1,2,4,5), of person age_diag age_c tx]
  have "- ln (survival_ustar env person u2 age_diag age_c tx)
      \<le> - ln (survival_ustar env person u1 age_diag age_c tx)"
    by simp
  then have "invert env row (- ln (survival_ustar env person u2 age_diag age_c tx))
      \<le> invert env row (- ln (survival_ustar env person u1 age_diag age_c tx))" for row
    using assms(7) by (simp add: monoD)
  then show ?thesis
    by (simp add: calculate_survival_def Let_def split: option.splits)
qed

theorem survival_antitone_witness:
  "case (calculate_survival identity_tables example_person (1/4) 65 70 RP,
         calculate_survival identity_tables example_person (1/2) 65 70 RP) of
           (Inr age_d1, Inr age_d2) \<Rightarrow> age_d2 \<le> age_d1
         | (Inl e1, Inl e2) \<Rightarrow> e1 = e2
         | _ \<Rightarrow> False"
proof -
  have "\<forall>row. mono (invert identity_tables row)"
    by (simp add: identity_tables_def mono_def)
  moreover have "parameter identity_tables n = 1" for n
    by (simp add: identity_tables_def)
  ultimately show ?thesis
    using survival_antitone [of "1/4" "1/2" identity_tables example_person 65 70 RP]
    by simp
qed

theorem survival_not_monotone:
  "0 < exp (- 2 :: real) \<and> exp (- 2 :: real) < exp (- 1) \<and> exp (- 1 :: real) < 1 \<and>
   parameter identity_tables ''c_baseline_specific'' = 1 \<and>
   parameter identity_tables ''sxbenefit'' = 1 \<and>
   parameter identity_tables ''c_txlt_interaction'' = 1 \<and>
   mono (invert identity_tables ()) \<and>
   calculate_survival identity_tables example_person (exp (- 2)) 80 80 no_treatment = Inr 82 \<and>
   calculate_survival identity_tables example_person (exp (- 1)) 80 80 no_treatment = Inr 81"
  by (simp add: calculate_survival_def survival_ustar_def identity_tables_def example_person_def
      mono_def)

section \<open>Properties of the kernel\<close>

lemma scheduleAt_cases:
  "scheduleAt sim t msg =
     (if t < sim_clock sim then Inl TimeReversal
      else Inr (sim\<lparr>sim_queue := sim_queue sim @ [(t, sim_sequence sim, msg\<lparr>msg_timestamp := t\<rparr>)],
                    sim_sequence := Suc (sim_sequence sim)\<rparr>))"
  by (simp add: scheduleAt_def self_signal_event_def)

lemma exec_cmd_ok:
  assumes "queue_ok sim" "exec_cmd sim c = Inr sim'"
  shows "queue_ok sim' \<and> sim_clock sim' = sim_clock sim \<and> sim_sequence sim \<le> sim_sequence sim' \<and>
     (\<forall>e \<in> set (sim_queue sim'). e \<in> set (sim_queue sim) \<or>
        (sim_clock sim \<le> fst e \<and> sim_sequence sim \<le> fst (snd e)))"
proof (cases c)
  case (ScheduleAt t k n pl)
  then have ge: "\<not> t < sim_clock sim" and
    sim': "sim' = sim\<lparr>sim_queue := sim_queue sim @
        [(t, sim_sequence sim, (cMessage_new (sim_clock sim) k n)\<lparr>msg_payload := pl, msg_timestamp := t\<rparr>)],
        sim_sequence := Suc (sim_sequence sim)\<rparr>"
    using assms(2) by (auto simp: scheduleAt_cases split: if_splits)
  have "\<forall>(t', n', msg) \<in> set (sim_queue sim). n' \<noteq> sim_sequence sim"
    using assms(1) by (auto simp: queue_ok_def)
  then have "sim_sequence sim \<notin> set (map (\<lambda>(t, n, msg). n) (sim_queue sim))"
    by auto
  then show ?thesis
    using assms(1) ge by (auto simp: sim' queue_ok_def cMessage_new_def less_Suc_eq)
next
  case (RemoveEvent pred)
  then have sim': "sim' = remove_event sim pred" using assms(2) by simp
  have "distinct (map (\<lambda>(t, n, msg). n) (filter (\<lambda>(t, n, msg). \<not> pred msg) (sim_queue sim)))"
    using assms(1) by (simp add: queue_ok_def distinct_map_filter)
  then show ?thesis using assms(1) by (auto simp: sim' remove_event_def queue_ok_def)
next
  case StopSimulation
  then show ?thesis using assms by (auto simp: stop_simulation_def queue_ok_def)
qed

lemma exec_cmds_ok:
  assumes "queue_ok sim" "exec_cmds sim cs = Inr sim'"
  shows "queue_ok sim' \<and> sim_clock sim' = sim_clock sim \<and> sim_sequence sim \<le> sim_sequence sim' \<and>
     (\<forall>e \<in> set (sim_queue sim'). e \<in> set (sim_queue sim) \<or>
        (sim_clock sim \<le> fst e \<and> sim_sequence sim \<le> fst (snd e)))"
  using assms
proof (induction cs arbitrary: sim)
  case Nil
  then show ?case by simp
next
  case (Cons c cs)
  then obtain sim1 where s1: "exec_cmd sim c = Inr sim1" "exec_cmds sim1 cs = Inr sim'"
    by (auto split: sum.splits)
  note a = exec_cmd_ok [OF Cons.prems(1) s1(1)]
  note b = Cons.IH [OF conjunct1 [OF a] s1(2)]
  show ?case using a b by (auto; fastforce)
qed

lemma entry_less_trans: "entry_less a b \<Longrightarrow> entry_less b c \<Longrightarrow> entry_less a c"
  by (cases a; cases b; cases c) auto

lemma entry_less_irrefl: "\<not> entry_less a a"
  by (cases a) auto

lemma fold_min_entry:
  "fold (\<lambda>x best. if entry_less x best then x else best) es e \<in> set (e # es) \<and>
   (\<forall>x \<in> set (e # es). \<not> entry_less x (fold (\<lambda>x best. if entry_less x best then x else best) es e))"
proof (induction es arbitrary: e)
  case Nil
  then show ?case by (simp add: entry_less_irrefl)
next
  case (Cons a es)
  let ?f = "\<lambda>x best. if entry_less x best then x else best"
  show ?case
  proof (cases "entry_less a e")
    case True
    have "\<not> entry_less e (fold ?f es a)"
    proof
      assume "entry_less e (fold ?f es a)"
      then have "entry_less a (fold ?f es a)" using True entry_less_trans by blast
      then show False using Cons.IH [of a] by simp
    qed
    then show ?thesis using True Cons.IH [of a] by simp
  next
    case False
    have "\<not> entry_less a (fold ?f es e)"
    proof
      assume a: "entry_less a (fold ?f es e)"
      have "\<not> entry_less e (fold ?f es e)" using Cons.IH [of e] by simp
      then show False using a False by (cases a; cases e; cases "fold ?f es e") auto
    qed
    then show ?thesis using False Cons.IH [of e] by auto
  qed
qed

lemma pop_min_props:
  assumes "pop_min q = Some (m, q')" "distinct (map (\<lambda>(t, n, msg). n) q)"
  shows "m \<in> set q \<and> set q' = set q - {m} \<and>
     (\<forall>e \<in> set q'. entry_less m e) \<and> distinct (map (\<lambda>(t, n, msg). n) q')"
proof -
  obtain e es where q: "q = e # es" using assms(1) by (cases q) (auto simp: pop_min_def)
  have m: "m = fold (\<lambda>x best. if entry_less x best then x else best) es e" and q': "q' = remove1 m q"
    using assms(1) q by (auto simp: pop_min_def Let_def)
  have mem: "m \<in> set q" and least: "\<forall>x \<in> set q. \<not> entry_less x m"
    using fold_min_entry [of es e] m q by simp_all
  have dq: "distinct q" using assms(2) by (simp add: distinct_map)
  have set_q': "set q' = set q - {m}" using dq q' by simp
  have "entry_less m x" if "x \<in> set q'" for x
  proof -
    have x: "x \<in> set q" "x \<noteq> m" using that set_q' by auto
    have "(\<lambda>(t, n, msg). n) x \<noteq> (\<lambda>(t, n, msg). n) m"
      using assms(2) x mem by (metis distinct_map inj_onD)
    moreover have "\<not> entry_less x m" using least x(1) by simp
    ultimately show ?thesis by (cases x; cases m) auto
  qed
  moreover have "distinct (map (\<lambda>(t, n, msg). n) q')"
    using assms(2) dq set_q' by (simp add: distinct_map q' inj_on_diff)
  ultimately show ?thesis using mem set_q' by simp
qed

lemma sim_step_dispatched:
  assumes ok: "queue_ok sim" and step: "sim_step process sim w = Dispatched e sim' w'"
  shows "sim_running sim \<and> e \<in> set (sim_queue sim) \<and> sim_clock sim \<le> fst e \<and>
     (\<forall>x \<in> set (sim_queue sim). x = e \<or> entry_less e x) \<and>
     sim_clock sim' = fst e \<and> queue_ok sim' \<and>
     (\<forall>x \<in> set (sim_queue sim'). entry_less e x) \<and>
     (\<exists>cmds. process w (fst e) (snd (snd e)) = Inr (w', cmds) \<and>
        exec_cmds (sim\<lparr>sim_clock := fst e, sim_queue := remove1 e (sim_queue sim)\<rparr>) cmds = Inr sim')"
proof -
  have run: "sim_running sim" using step by (auto simp: sim_step_def split: if_splits)
  obtain q where pop: "pop_min (sim_queue sim) = Some (e, q)"
    using step run by (auto simp: sim_step_def split: option.splits sum.splits prod.splits)
  obtain t n msg where e: "e = (t, n, msg)" by (cases e) auto
  obtain cmds where h: "process w t msg = Inr (w', cmds)"
      and ex: "exec_cmds (sim\<lparr>sim_clock := t, sim_queue := q\<rparr>) cmds = Inr sim'"
    using step run pop e by (auto simp: sim_step_def split: sum.splits prod.splits)
  have dist: "distinct (map (\<lambda>(t, n, msg). n) (sim_queue sim))" using ok by (simp add: queue_ok_def)
  note pm = pop_min_props [OF pop dist]
  have q: "q = remove1 e (sim_queue sim)"
    using pop by (auto simp: pop_min_def Let_def split: list.splits)
  have e_ok: "sim_clock sim \<le> t" "n < sim_sequence sim"
    using ok pm e by (auto simp: queue_ok_def)
  define sim1 where "sim1 = sim\<lparr>sim_clock := t, sim_queue := q\<rparr>"
  have ok1: "queue_ok sim1"
    unfolding queue_ok_def sim1_def
  proof (intro conjI ballI)
    fix x assume x: "x \<in> set (sim_queue (sim\<lparr>sim_clock := t, sim_queue := q\<rparr>))"
    then have "entry_less e x" "x \<in> set (sim_queue sim)" using pm by auto
    then show "case x of (t', n', msg') \<Rightarrow>
        sim_clock (sim\<lparr>sim_clock := t, sim_queue := q\<rparr>) \<le> t' \<and>
        n' < sim_sequence (sim\<lparr>sim_clock := t, sim_queue := q\<rparr>) \<and>
        msg_timestamp msg' = t' \<and> msg_sendingTime msg' \<le> msg_timestamp msg'"
      using ok e by (cases x) (auto simp: queue_ok_def)
  next
    show "distinct (map (\<lambda>(t, n, msg). n) (sim_queue (sim\<lparr>sim_clock := t, sim_queue := q\<rparr>)))"
      using pm by simp
  qed
  note after = exec_cmds_ok [OF ok1 ex [folded sim1_def]]
  have above: "entry_less e x" if "x \<in> set (sim_queue sim')" for x
  proof -
    from after that have "x \<in> set (sim_queue sim1) \<or>
        (sim_clock sim1 \<le> fst x \<and> sim_sequence sim1 \<le> fst (snd x))" by blast
    then show ?thesis
    proof
      assume "x \<in> set (sim_queue sim1)"
      then show ?thesis using pm by (simp add: sim1_def)
    next
      assume "sim_clock sim1 \<le> fst x \<and> sim_sequence sim1 \<le> fst (snd x)"
      then show ?thesis using e e_ok(2) by (cases x) (auto simp: sim1_def)
    qed
  qed
  have "\<forall>x \<in> set (sim_queue sim). x = e \<or> entry_less e x" using pm by auto
  moreover have "sim_clock sim' = t" using after by (simp add: sim1_def)
  ultimately show ?thesis
    using run pm e e_ok(1) after above h ex q by auto
qed

lemma run_loop_sorted:
  assumes "queue_ok sim" "\<forall>x \<in> set (sim_queue sim). entry_less d x"
  shows "sorted_wrt entry_less (map fst (run_trace (run_loop fuel process sim w))) \<and>
     (\<forall>x \<in> set (map fst (run_trace (run_loop fuel process sim w))). entry_less d x)"
  using assms
proof (induction fuel arbitrary: sim w d)
  case 0
  then show ?case by simp
next
  case (Suc fuel)
  show ?case
  proof (cases "sim_step process sim w")
    case (Dispatched e sim' w')
    note st = sim_step_dispatched [OF Suc.prems(1) Dispatched]
    have ok': "queue_ok sim'" and above: "\<forall>x \<in> set (sim_queue sim'). entry_less e x"
      using st by simp_all
    have de: "entry_less d e" using st Suc.prems(2) by simp
    note IH = Suc.IH [OF ok' above, of w']
    have "\<forall>x \<in> set (map fst (run_trace (run_loop fuel process sim' w'))). entry_less d x"
      using IH de entry_less_trans by blast
    then show ?thesis using Dispatched IH de by (simp add: Let_def)
  qed simp_all
qed

lemma run_loop_queue_ok:
  "queue_ok sim \<Longrightarrow> queue_ok (run_sim (run_loop fuel process sim w))"
proof (induction fuel arbitrary: sim w)
  case 0
  then show ?case by simp
next
  case (Suc fuel)
  show ?case
  proof (cases "sim_step process sim w")
    case Exit
    then show ?thesis using Suc.prems by simp
  next
    case (Failed e)
    then show ?thesis using Suc.prems by simp
  next
    case (Dispatched e sim' w')
    have "queue_ok sim'" using sim_step_dispatched [OF Suc.prems Dispatched] by simp
    then have "queue_ok (run_sim (run_loop fuel process sim' w'))" by (rule Suc.IH)
    then show ?thesis using Dispatched by (simp add: Let_def)
  qed
qed

lemma queue_ok_running [simp]: "queue_ok (sim\<lparr>sim_running := b\<rparr>) = queue_ok sim"
  by (simp add: queue_ok_def)

lemma create_process_ok:
  assumes "create_process init Sim_initial w = Inr (sim, w')"
  shows "queue_ok sim \<and> sim_clock sim = 0"
proof -
  obtain cmds where ex: "exec_cmds (Sim_initial\<lparr>sim_current_process := True\<rparr>) cmds = Inr sim"
    using assms by (auto simp: create_process_def split: if_splits sum.splits)
  have "queue_ok (Sim_initial\<lparr>sim_current_process := True\<rparr>)"
    by (simp add: queue_ok_def Sim_initial_def)
  from exec_cmds_ok [OF this ex] show ?thesis by (simp add: Sim_initial_def)
qed

lemma simulate_queue_ok: "queue_ok (run_sim (simulate fuel init process w))"
proof (cases "create_process init Sim_initial w")
  case (Inl e)
  then show ?thesis by (simp add: simulate_def queue_ok_def Sim_initial_def)
next
  case (Inr a)
  then obtain sim w' where cp: "create_process init Sim_initial w = Inr (sim, w')" by (cases a) auto
  then have "queue_ok (sim\<lparr>sim_running := True\<rparr>)" using create_process_ok [OF cp] by simp
  then have "queue_ok (run_sim (run_loop fuel process (sim\<lparr>sim_running := True\<rparr>) w'))"
    by (rule run_loop_queue_ok)
  then show ?thesis using cp by (simp add: simulate_def run_simulation_def)
qed

lemma scheduleAt_reversal:
  "t < sim_clock sim \<Longrightarrow>
      scheduleAt sim t msg = Inl TimeReversal \<and>
      scheduleAt_kind sim t k = Inl TimeReversal \<and>
      scheduleAt_name sim t nm = Inl TimeReversal \<and>
      exec_cmd sim (ScheduleAt t k nm pl) = Inl TimeReversal"
  by (simp add: scheduleAt_cases scheduleAt_kind_def scheduleAt_name_def)

lemma scheduleAt_inserts:
  "sim_clock sim \<le> t \<Longrightarrow>
      scheduleAt sim t msg =
        Inr (sim\<lparr>sim_queue := sim_queue sim @ [(t, sim_sequence sim, msg\<lparr>msg_timestamp := t\<rparr>)],
                 sim_sequence := Suc (sim_sequence sim)\<rparr>) \<and>
      scheduleAt_kind sim t k =
        Inr (sim\<lparr>sim_queue := sim_queue sim @
                   [(t, sim_sequence sim,
                     \<lparr>msg_kind = k, msg_name = [], msg_sendingTime = sim_clock sim,
                      msg_timestamp = t, msg_payload = NoPayload\<rparr>)],
                 sim_sequence := Suc (sim_sequence sim)\<rparr>) \<and>
      scheduleAt_name sim t nm =
        Inr (sim\<lparr>sim_queue := sim_queue sim @
                   [(t, sim_sequence sim,
                     \<lparr>msg_kind = - 1, msg_name = nm, msg_sendingTime = sim_clock sim,
                      msg_timestamp = t, msg_payload = NoPayload\<rparr>)],
                 sim_sequence := Suc (sim_sequence sim)\<rparr>)"
  by (simp add: scheduleAt_cases scheduleAt_kind_def scheduleAt_name_def cMessage_new_def)

lemma simulate_stamped:
  "\<forall>(t', n', msg') \<in> set (sim_queue (run_sim (simulate fuel init process w))).
      msg_sendingTime msg' \<le> msg_timestamp msg' \<and> msg_timestamp msg' = t'"
  using simulate_queue_ok [of fuel init process w] unfolding queue_ok_def by fast

subsection \<open>C9: scheduling in the past\<close>

text \<open>
  Claim C9, amended. With a time \<open>t\<close> before the clock, \<open>scheduleAt\<close> (each of its
  overloads, and so every scheduling call of a handler) fails with \<open>TimeReversal\<close> and
  inserts nothing. With \<open>t\<close> at or after the clock the message is appended to the queue
  under the next insertion number with \<open>timestamp = t\<close> and with the \<open>sendingTime\<close> its
  constructor gave it: the clock at its construction. That is \<open>now()\<close> for the overloads
  \<open>scheduleAt(t, kind)\<close> and \<open>scheduleAt(t, name)\<close>, which construct the message, and
  for \<open>scheduleAt(t, msg)\<close> it is whatever the clock was when \<open>msg\<close> was made:
  \<open>scheduleAt\<close> writes \<open>timestamp\<close> only. So \<open>sendingTime \<le> timestamp\<close> holds for a
  queued message that was constructed at a clock no later than \<open>now()\<close>, and in every run
  of a process on the kernel, whose handlers schedule the messages they construct. In
  \<open>scheduleAt_sending_time\<close> below a message constructed at clock \<open>3\<close> is scheduled at
  clock \<open>10\<close> for \<open>12\<close> and queued with \<open>sendingTime = 3\<close>; and one constructed at
  clock \<open>50\<close> and scheduled for \<open>10\<close> after \<open>Sim::clear()\<close> is queued with
  \<open>sendingTime = 50 > timestamp\<close>. The failure is the kernel's, which is modelled from
  the specification.
\<close>

theorem scheduleAt_contract:
  "(t < sim_clock sim \<longrightarrow>
      scheduleAt sim t msg = Inl TimeReversal \<and>
      scheduleAt_kind sim t k = Inl TimeReversal \<and>
      scheduleAt_name sim t nm = Inl TimeReversal \<and>
      exec_cmd sim (ScheduleAt t k nm pl) = Inl TimeReversal) \<and>
   (sim_clock sim \<le> t \<longrightarrow>
      scheduleAt sim t msg =
        Inr (sim\<lparr>sim_queue := sim_queue sim @ [(t, sim_sequence sim, msg\<lparr>msg_timestamp := t\<rparr>)],
                 sim_sequence := Suc (sim_sequence sim)\<rparr>) \<and>
      scheduleAt sim t (cMessage_new c k nm) =
        Inr (sim\<lparr>sim_queue := sim_queue sim @
                   [(t, sim_sequence sim,
                     \<lparr>msg_kind = k, msg_name = nm, msg_sendingTime = c,
                      msg_timestamp = t, msg_payload = NoPayload\<rparr>)],
                 sim_sequence := Suc (sim_sequence sim)\<rparr>) \<and>
      scheduleAt_kind sim t k =
        Inr (sim\<lparr>sim_queue := sim_queue sim @
                   [(t, sim_sequence sim,
                     \<lparr>msg_kind = k, msg_name = [], msg_sendingTime = sim_clock sim,
                      msg_timestamp = t, msg_payload = NoPayload\<rparr>)],
                 sim_sequence := Suc (sim_sequence sim)\<rparr>) \<and>
      scheduleAt_name sim t nm =
        Inr (sim\<lparr>sim_queue := sim_queue sim @
                   [(t, sim_sequence sim,
                     \<lparr>msg_kind = - 1, msg_name = nm, msg_sendingTime = sim_clock sim,
                      msg_timestamp = t, msg_payload = NoPayload\<rparr>)],
                 sim_sequence := Suc (sim_sequence sim)\<rparr>)) \<and>
   (sim_clock sim \<le> t \<and> msg_sendingTime msg \<le> sim_clock sim \<and>
    (\<forall>(t', n', msg') \<in> set (sim_queue sim). msg_sendingTime msg' \<le> msg_timestamp msg') \<longrightarrow>
      (\<exists>sim'. scheduleAt sim t msg = Inr sim' \<and>
         (\<forall>(t', n', msg') \<in> set (sim_queue sim'). msg_sendingTime msg' \<le> msg_timestamp msg'))) \<and>
   (\<forall>(t', n', msg') \<in> set (sim_queue (run_sim (simulate fuel init process w))).
      msg_sendingTime msg' \<le> msg_timestamp msg' \<and> msg_timestamp msg' = t')"
proof (intro conjI impI)
  assume "t < sim_clock sim"
  then show "scheduleAt sim t msg = Inl TimeReversal" "scheduleAt_kind sim t k = Inl TimeReversal"
    "scheduleAt_name sim t nm = Inl TimeReversal"
    "exec_cmd sim (ScheduleAt t k nm pl) = Inl TimeReversal"
    using scheduleAt_reversal [of t sim] by simp_all
next
  assume le: "sim_clock sim \<le> t"
  show "scheduleAt sim t msg =
        Inr (sim\<lparr>sim_queue := sim_queue sim @ [(t, sim_sequence sim, msg\<lparr>msg_timestamp := t\<rparr>)],
                 sim_sequence := Suc (sim_sequence sim)\<rparr>)"
    using scheduleAt_inserts [OF le] by simp
  show "scheduleAt sim t (cMessage_new c k nm) =
        Inr (sim\<lparr>sim_queue := sim_queue sim @
                   [(t, sim_sequence sim,
                     \<lparr>msg_kind = k, msg_name = nm, msg_sendingTime = c,
                      msg_timestamp = t, msg_payload = NoPayload\<rparr>)],
                 sim_sequence := Suc (sim_sequence sim)\<rparr>)"
    using le by (simp add: scheduleAt_cases cMessage_new_def)
  show "scheduleAt_kind sim t k =
        Inr (sim\<lparr>sim_queue := sim_queue sim @
                   [(t, sim_sequence sim,
                     \<lparr>msg_kind = k, msg_name = [], msg_sendingTime = sim_clock sim,
                      msg_timestamp = t, msg_payload = NoPayload\<rparr>)],
                 sim_sequence := Suc (sim_sequence sim)\<rparr>)"
    using scheduleAt_inserts [OF le] by simp
  show "scheduleAt_name sim t nm =
        Inr (sim\<lparr>sim_queue := sim_queue sim @
                   [(t, sim_sequence sim,
                     \<lparr>msg_kind = - 1, msg_name = nm, msg_sendingTime = sim_clock sim,
                      msg_timestamp = t, msg_payload = NoPayload\<rparr>)],
                 sim_sequence := Suc (sim_sequence sim)\<rparr>)"
    using scheduleAt_inserts [OF le] by simp
next
  assume a: "sim_clock sim \<le> t \<and> msg_sendingTime msg \<le> sim_clock sim \<and>
    (\<forall>(t', n', msg') \<in> set (sim_queue sim). msg_sendingTime msg' \<le> msg_timestamp msg')"
  then show "\<exists>sim'. scheduleAt sim t msg = Inr sim' \<and>
         (\<forall>(t', n', msg') \<in> set (sim_queue sim'). msg_sendingTime msg' \<le> msg_timestamp msg')"
    by (auto simp: scheduleAt_cases)
next
  show "\<forall>(t', n', msg') \<in> set (sim_queue (run_sim (simulate fuel init process w))).
      msg_sendingTime msg' \<le> msg_timestamp msg' \<and> msg_timestamp msg' = t'"
    by (rule simulate_stamped)
qed

theorem scheduleAt_contract_witness:
  "scheduleAt_kind (Sim_initial\<lparr>sim_clock := 10\<rparr>) 5 4 = Inl TimeReversal \<and>
   scheduleAt_kind (Sim_initial\<lparr>sim_clock := 10\<rparr>) 12 4 =
     Inr \<lparr>sim_clock = 10,
          sim_queue = [(12, 0, \<lparr>msg_kind = 4, msg_name = [], msg_sendingTime = 10,
                                msg_timestamp = 12, msg_payload = NoPayload\<rparr>)],
          sim_sequence = 1, sim_running = False, sim_current_process = False\<rparr> \<and>
   (\<exists>sim'. scheduleAt (Sim_initial\<lparr>sim_clock := 10\<rparr>) 12 (cMessage_new 10 4 []) = Inr sim' \<and>
      (\<forall>(t', n', msg') \<in> set (sim_queue sim'). msg_sendingTime msg' \<le> msg_timestamp msg'))"
proof -
  note c = scheduleAt_contract [where sim = "Sim_initial\<lparr>sim_clock := 10\<rparr>"
      and msg = "cMessage_new 10 4 []" and k = 4 and nm = "[]" and pl = NoPayload and c = 10
      and fuel = 0 and init = "SimplePerson_init cured_draws"
      and process = "SimplePerson_handleMessage cured_draws"
      and w = "(example_report, SimplePerson_new 0)"]
  have "scheduleAt_kind (Sim_initial\<lparr>sim_clock := 10\<rparr>) 5 4 = Inl TimeReversal"
    using c [where t = 5] by simp
  moreover have "scheduleAt_kind (Sim_initial\<lparr>sim_clock := 10\<rparr>) 12 4 =
     Inr \<lparr>sim_clock = 10,
          sim_queue = [(12, 0, \<lparr>msg_kind = 4, msg_name = [], msg_sendingTime = 10,
                                msg_timestamp = 12, msg_payload = NoPayload\<rparr>)],
          sim_sequence = 1, sim_running = False, sim_current_process = False\<rparr>"
    using c [where t = 12] by (simp add: Sim_initial_def)
  moreover have "\<exists>sim'. scheduleAt (Sim_initial\<lparr>sim_clock := 10\<rparr>) 12 (cMessage_new 10 4 []) = Inr sim' \<and>
      (\<forall>(t', n', msg') \<in> set (sim_queue sim'). msg_sendingTime msg' \<le> msg_timestamp msg')"
    using c [where t = 12] by (simp add: Sim_initial_def cMessage_new_def)
  ultimately show ?thesis by simp
qed

theorem scheduleAt_sending_time:
  "scheduleAt (Sim_initial\<lparr>sim_clock := 10\<rparr>) 12 (cMessage_new 3 4 []) =
     Inr \<lparr>sim_clock = 10,
          sim_queue = [(12, 0, \<lparr>msg_kind = 4, msg_name = [], msg_sendingTime = 3,
                                msg_timestamp = 12, msg_payload = NoPayload\<rparr>)],
          sim_sequence = 1, sim_running = False, sim_current_process = False\<rparr> \<and>
   scheduleAt (Sim_clear (Sim_initial\<lparr>sim_clock := 50\<rparr>)) 10 (cMessage_new 50 4 []) =
     Inr \<lparr>sim_clock = 0,
          sim_queue = [(10, 0, \<lparr>msg_kind = 4, msg_name = [], msg_sendingTime = 50,
                                msg_timestamp = 10, msg_payload = NoPayload\<rparr>)],
          sim_sequence = 1, sim_running = False, sim_current_process = False\<rparr>"
  by (simp add: scheduleAt_cases Sim_initial_def Sim_clear_def cMessage_new_def)




lemma short_event_simps [simp]:
  "short_event 2 = Some toClinicalDiagnosis" "short_event 8 = Some toClinicalDiagnosticBiopsy"
  by (simp_all add: short_event_def all_events_def)

section \<open>Properties of the handlers on the kernel\<close>

lemma is_schedule_simps [simp]:
  "is_schedule (schedule_kind t k)" "is_schedule (schedule_utility_change t c)"
  "is_schedule (schedule_utility t u)" "\<not> is_schedule (RemoveKind k)"
  by (simp_all add: schedule_kind_def schedule_utility_change_def schedule_utility_def RemoveKind_def)

lemma utility_dip_schedules [simp]: "list_all is_schedule (utility_dip env item a b)"
  by (simp add: utility_dip_def)

lemma two_part_dip_schedules [simp]: "list_all is_schedule (two_part_dip env item now)"
  by (simp add: two_part_dip_def)

lemma handle_screen_schedules [simp]:
  "list_all is_schedule (snd (handle_screen env person call now psa kind))"
  by (simp add: handle_screen_def Let_def)

lemma handle_biopsy_schedules [simp]:
  "list_all is_schedule (snd (handle_biopsy env person call now))"
  by (simp add: handle_biopsy_def Let_def)

lemma handle_treatment_schedules:
  "handle_treatment env person call now year = Inr (person', cmds) \<Longrightarrow> list_all is_schedule cmds"
  by (auto simp: handle_treatment_def Let_def split: sum.splits)

lemma schedules_no_other:
  "list_all is_schedule cmds \<Longrightarrow> RemoveEvent pred \<notin> set cmds \<and> StopSimulation \<notin> set cmds"
  by (induction cmds) auto


lemma short_event_event_short [simp]: "short_event (event_short ev) = Some ev"
  by (cases ev) (simp_all add: short_event_def all_events_def)

lemma short_event_Some: "short_event k = Some ev \<Longrightarrow> k = event_short ev"
proof -
  assume a: "short_event k = Some ev"
  then have "0 \<le> k" "k < 18" by (auto simp: short_event_def split: if_splits)
  then have "k \<in> {0, 1, 2, 3, 4, 5, 6, 7, 8, 9, 10, 11, 12, 13, 14, 15, 16, 17}" by simp arith
  then obtain ev' where "k = event_short ev'"
    by (metis event_short.simps insertE singletonD)
  then show ?thesis using a by simp
qed

lemma handle_kind_cmds:
  assumes "handle_kind env person call now psa year msg = Inr (person', cmds)"
  shows "(StopSimulation \<in> set cmds \<longleftrightarrow> fhcrc_death (msg_kind msg)) \<and>
     (\<forall>pred. RemoveEvent pred \<in> set cmds \<longrightarrow>
        pred = cMessageKindEq (event_short toMetastatic) \<or>
        pred = cMessageKindEq (event_short toClinicalDiagnosis) \<or>
        pred = cMessageKindEq (event_short toScreen) \<or>
        pred = cMessageKindEq (event_short toUtility))"
proof (cases "short_event (msg_kind msg)")
  case None
  then have "\<not> fhcrc_death (msg_kind msg)"
    using short_event_event_short [of toCancerDeath] short_event_event_short [of toOtherDeath]
    by (auto simp: fhcrc_death_def simp del: short_event_event_short)
  then show ?thesis using assms None by (auto simp: handle_kind_def)
next
  case (Some ev)
  then have k: "msg_kind msg = event_short ev" by (rule short_event_Some)
  have scr: "handle_screen env person call now psa kind = (p, cs) \<Longrightarrow>
      RemoveEvent pred \<notin> set cs \<and> StopSimulation \<notin> set cs" for pred kind p cs
    using handle_screen_schedules [of env person call now psa kind]
    by (simp add: schedules_no_other)
  have bio: "handle_biopsy env person call now = (p, cs) \<Longrightarrow>
      RemoveEvent pred \<notin> set cs \<and> StopSimulation \<notin> set cs" for pred p cs
    using handle_biopsy_schedules [of env person call now]
    by (simp add: schedules_no_other)
  have dip: "RemoveEvent pred \<notin> set (utility_dip env item a b)"
      "StopSimulation \<notin> set (utility_dip env item a b)" for pred item a b
    by (simp_all add: schedules_no_other)
  have two: "RemoveEvent pred \<notin> set (two_part_dip env item a)"
      "StopSimulation \<notin> set (two_part_dip env item a)" for pred item a
    by (simp_all add: schedules_no_other)
  have trt: "handle_treatment env person call now year = Inr (person', cmds) \<Longrightarrow>
      RemoveEvent pred \<notin> set cmds \<and> StopSimulation \<notin> set cmds" for pred
    by (auto dest!: handle_treatment_schedules simp: schedules_no_other)
  show ?thesis
  proof (cases ev)
    case toTreatment
    then show ?thesis using assms Some k trt by (auto simp: handle_kind_def fhcrc_death_def)
  next
    case toScreen
    then show ?thesis using assms Some k scr
      by (auto simp: handle_kind_def fhcrc_death_def)
  next
    case toBiopsyFollowUpScreen
    then show ?thesis using assms Some k scr
      by (auto simp: handle_kind_def fhcrc_death_def)
  next
    case toScreenInitiatedBiopsy
    then show ?thesis using assms Some k bio by (auto simp: handle_kind_def fhcrc_death_def)
  qed (use assms Some k dip two in
      \<open>auto simp: handle_kind_def fhcrc_death_def RemoveKind_def schedule_kind_def
         split: payload.splits\<close>)
qed


lemma fhcrc_process_cmds:
  assumes "process_event (FhcrcPerson_handleMessage env) w t msg = Inr (w', cmds)"
  shows "(StopSimulation \<in> set cmds \<longleftrightarrow> fhcrc_death (msg_kind msg)) \<and>
     (\<forall>pred. RemoveEvent pred \<in> set cmds \<longrightarrow>
        pred = cMessageKindEq (event_short toMetastatic) \<or>
        pred = cMessageKindEq (event_short toClinicalDiagnosis) \<or>
        pred = cMessageKindEq (event_short toScreen) \<or>
        pred = cMessageKindEq (event_short toUtility))"
proof -
  obtain g person where w: "w = (g, person)" by (cases w) auto
  from assms obtain person' where
    "handle_kind env person (fg_calls g) t (y env (fg_calls g) person (t - 35))
       (t + fp_cohort person) msg = Inr (person', cmds)"
    unfolding process_event_def FhcrcPerson_handleMessage_def w
    by (auto simp: Let_def split: sum.splits prod.splits)
  then show ?thesis by (rule handle_kind_cmds)
qed

lemma exec_cmds_keeps:
  assumes "exec_cmds sim cmds = Inr sim'" "e \<in> set (sim_queue sim)"
    and "\<forall>pred. RemoveEvent pred \<in> set cmds \<longrightarrow> \<not> pred (snd (snd e))"
  shows "e \<in> set (sim_queue sim')"
  using assms
proof (induction cmds arbitrary: sim)
  case Nil
  then show ?case by simp
next
  case (Cons c cmds)
  then obtain sim1 where s1: "exec_cmd sim c = Inr sim1" "exec_cmds sim1 cmds = Inr sim'"
    by (auto split: sum.splits)
  have "e \<in> set (sim_queue sim1)"
  proof (cases c)
    case (ScheduleAt t k n pl)
    then show ?thesis using s1(1) Cons.prems(2)
      by (auto simp: scheduleAt_cases split: if_splits)
  next
    case (RemoveEvent pred)
    then have "\<not> pred (snd (snd e))" using Cons.prems(3) by simp
    then show ?thesis using s1(1) Cons.prems(2) RemoveEvent
      by (cases e) (auto simp: remove_event_def)
  next
    case StopSimulation
    then show ?thesis using s1(1) Cons.prems(2) by (auto simp: stop_simulation_def)
  qed
  moreover have "\<forall>pred. RemoveEvent pred \<in> set cmds \<longrightarrow> \<not> pred (snd (snd e))"
    using Cons.prems(3) by auto
  ultimately show ?case by (rule Cons.IH [OF s1(2)])
qed

lemma entry_less_asym: "entry_less a b \<Longrightarrow> \<not> entry_less b a"
  by (cases a; cases b) auto

lemma pending_dispatched_first:
  assumes nr: "\<And>w t m w' cmds pred x.
      process w t m = Inr (w', cmds) \<Longrightarrow> RemoveEvent pred \<in> set cmds \<Longrightarrow> P x \<Longrightarrow> \<not> pred x"
    and "queue_ok sim" "e \<in> set (sim_queue sim)" "P (snd (snd e))"
    and "e' \<in> set (map fst (run_trace (run_loop fuel process sim w)))" "entry_less e e'"
  shows "dispatched_before e e' (map fst (run_trace (run_loop fuel process sim w)))"
  using assms(2-)
proof (induction fuel arbitrary: sim w)
  case 0
  then show ?case by simp
next
  case (Suc fuel)
  show ?case
  proof (cases "sim_step process sim w")
    case Exit
    then show ?thesis using Suc.prems(4) by simp
  next
    case (Failed err)
    then show ?thesis using Suc.prems(4) by simp
  next
    case (Dispatched m sim' w')
    note st = sim_step_dispatched [OF Suc.prems(1) Dispatched]
    let ?rest = "map fst (run_trace (run_loop fuel process sim' w'))"
    have tr: "map fst (run_trace (run_loop (Suc fuel) process sim w)) = m # ?rest"
      using Dispatched by (simp add: Let_def)
    have ne: "e \<noteq> e'" using Suc.prems(5) entry_less_irrefl [of e] by auto
    show ?thesis
    proof (cases "m = e")
      case True
      then show ?thesis unfolding tr using ne by (simp add: dispatched_before_def)
    next
      case False
      then have me: "entry_less m e" using st Suc.prems(2) by auto
      then have "entry_less m e'" using Suc.prems(5) entry_less_trans by blast
      then have m_ne: "m \<noteq> e'" using entry_less_irrefl [of m] by auto
      then have in_rest: "e' \<in> set ?rest" using Suc.prems(4) unfolding tr by auto
      obtain cmds where h: "process w (fst m) (snd (snd m)) = Inr (w', cmds)"
          and ex: "exec_cmds (sim\<lparr>sim_clock := fst m, sim_queue := remove1 m (sim_queue sim)\<rparr>) cmds = Inr sim'"
        using st by auto
      have "e \<in> set (sim_queue (sim\<lparr>sim_clock := fst m, sim_queue := remove1 m (sim_queue sim)\<rparr>))"
        using Suc.prems(2) False by simp
      moreover have "\<forall>pred. RemoveEvent pred \<in> set cmds \<longrightarrow> \<not> pred (snd (snd e))"
        using nr [OF h] Suc.prems(3) by blast
      ultimately have "e \<in> set (sim_queue sim')" using exec_cmds_keeps [OF ex] by blast
      moreover have "queue_ok sim'" using st by simp
      ultimately have "dispatched_before e e' ?rest"
        using Suc.IH [of sim' w'] Suc.prems(3,5) in_rest by simp
      then show ?thesis unfolding tr using m_ne by (simp add: dispatched_before_def)
    qed
  qed
qed

section \<open>Order of dispatch at equal times\<close>

lemma clinical_diagnosis_cmds:
  assumes "process_event (FhcrcPerson_handleMessage env) w t msg = Inr (w', cmds)"
    and "msg_kind msg = event_short toClinicalDiagnosis"
  shows "cmds =
     [RemoveKind (event_short toMetastatic), RemoveKind (event_short toScreen),
      schedule_kind t (event_short toClinicalDiagnosticBiopsy),
      schedule_kind t (event_short toClinicalDiagnosticBiopsy),
      schedule_kind t (event_short toClinicalDiagnosticBiopsy),
      schedule_kind t (event_short toTreatment)]"
proof -
  obtain g person where w: "w = (g, person)" by (cases w) auto
  have "short_event (msg_kind msg) = Some toClinicalDiagnosis" using assms(2) by simp
  then show ?thesis
    using assms(1) unfolding process_event_def FhcrcPerson_handleMessage_def w
    by (auto simp: Let_def handle_kind_def split: sum.splits prod.splits)
qed

lemma clinical_diagnosis_queue:
  assumes "exec_cmds sim
     [RemoveKind k1, RemoveKind k2,
      schedule_kind (sim_clock sim) (event_short toClinicalDiagnosticBiopsy),
      schedule_kind (sim_clock sim) (event_short toClinicalDiagnosticBiopsy),
      schedule_kind (sim_clock sim) (event_short toClinicalDiagnosticBiopsy),
      schedule_kind (sim_clock sim) (event_short toTreatment)] = Inr sim'"
  shows "\<exists>q. sim_queue sim' = q @
     [scheduled_now (sim_clock sim) (sim_sequence sim) toClinicalDiagnosticBiopsy,
      scheduled_now (sim_clock sim) (sim_sequence sim + 1) toClinicalDiagnosticBiopsy,
      scheduled_now (sim_clock sim) (sim_sequence sim + 2) toClinicalDiagnosticBiopsy,
      scheduled_now (sim_clock sim) (sim_sequence sim + 3) toTreatment]"
  using assms
  by (auto simp: RemoveKind_def schedule_kind_def remove_event_def scheduleAt_cases
      cMessage_new_def scheduled_now_def)


lemma fhcrc_keeps_biopsies:
  assumes "process_event (FhcrcPerson_handleMessage env) w t m = Inr (w', cmds)"
    and "RemoveEvent pred \<in> set cmds"
    and "msg_kind x = event_short toClinicalDiagnosticBiopsy"
  shows "\<not> pred x"
  using fhcrc_process_cmds [OF assms(1)] assms(2,3)
  by (auto simp: cMessageKindEq_def)

lemma short_event_simps2 [simp]:
  "short_event 11 = Some toTreatment" "short_event 12 = Some toCM"
  "short_event 3 = Some toCancerDeath" "short_event 16 = Some toUtilityChange"
  by (simp_all add: short_event_def all_events_def)

text \<open>
  Claim C3. The kernel dispatches the entries of a run in the strict lexicographic order
  of (timestamp, insertion number): two messages with the same timestamp are handled in
  the order of their insertion. In particular the \<open>toClinicalDiagnosis\<close> handler of
  fhcrc-example.cpp (lines 406--414) leaves its three \<open>toClinicalDiagnosticBiopsy\<close>
  messages and then its \<open>toTreatment\<close> message at the end of the queue, all at \<open>now()\<close>
  with consecutive insertion numbers, and in every continuation of the run in which the
  \<open>toTreatment\<close> message is dispatched, each of the three biopsy messages is dispatched
  before it: no handler of the cancer model removes a biopsy message. The kernel's queue
  and loop are modelled from the specification.
\<close>

theorem fifo_dispatch:
  assumes "queue_ok sim"
  shows "sorted_wrt entry_less (map fst (run_trace (run_simulation fuel process sim w))) \<and>
     (\<forall>e sim' w'.
        sim_step (process_event (FhcrcPerson_handleMessage env)) sim fw = Dispatched e sim' w' \<and>
        msg_kind (snd (snd e)) = event_short toClinicalDiagnosis \<longrightarrow>
        (let t = fst e;
             n = sim_sequence sim;
             es = map fst (run_trace (run_loop fuel' (process_event (FhcrcPerson_handleMessage env)) sim' w'))
         in (\<exists>q. sim_queue sim' = q @
               [scheduled_now t n toClinicalDiagnosticBiopsy,
                scheduled_now t (n + 1) toClinicalDiagnosticBiopsy,
                scheduled_now t (n + 2) toClinicalDiagnosticBiopsy,
                scheduled_now t (n + 3) toTreatment]) \<and>
            (scheduled_now t (n + 3) toTreatment \<in> set es \<longrightarrow>
               dispatched_before (scheduled_now t n toClinicalDiagnosticBiopsy)
                 (scheduled_now t (n + 3) toTreatment) es \<and>
               dispatched_before (scheduled_now t (n + 1) toClinicalDiagnosticBiopsy)
                 (scheduled_now t (n + 3) toTreatment) es \<and>
               dispatched_before (scheduled_now t (n + 2) toClinicalDiagnosticBiopsy)
                 (scheduled_now t (n + 3) toTreatment) es)))"
proof (intro conjI allI impI)
  have ok: "queue_ok (sim\<lparr>sim_running := True\<rparr>)" using assms by simp
  have "\<forall>x \<in> set (sim_queue (sim\<lparr>sim_running := True\<rparr>)).
      entry_less (sim_clock sim - 1, 0, undefined) x"
    using assms by (auto simp: queue_ok_def)
  from run_loop_sorted [OF ok this, of fuel process w]
  show "sorted_wrt entry_less (map fst (run_trace (run_simulation fuel process sim w)))"
    by (simp add: run_simulation_def)
next
  fix e sim' w'
  assume a: "sim_step (process_event (FhcrcPerson_handleMessage env)) sim fw = Dispatched e sim' w' \<and>
        msg_kind (snd (snd e)) = event_short toClinicalDiagnosis"
  let ?P = "process_event (FhcrcPerson_handleMessage env)"
  note st = sim_step_dispatched [OF assms conjunct1 [OF a]]
  define sim1 where "sim1 = sim\<lparr>sim_clock := fst e, sim_queue := remove1 e (sim_queue sim)\<rparr>"
  obtain cmds where h: "?P fw (fst e) (snd (snd e)) = Inr (w', cmds)"
      and ex: "exec_cmds sim1 cmds = Inr sim'"
    using st unfolding sim1_def by auto
  note cmds = clinical_diagnosis_cmds [OF h conjunct2 [OF a]]
  have s1: "sim_clock sim1 = fst e" "sim_sequence sim1 = sim_sequence sim" by (simp_all add: sim1_def)
  from clinical_diagnosis_queue [of sim1, unfolded s1, OF ex [unfolded cmds]]
  obtain q where q: "sim_queue sim' = q @
     [scheduled_now (fst e) (sim_sequence sim) toClinicalDiagnosticBiopsy,
      scheduled_now (fst e) (sim_sequence sim + 1) toClinicalDiagnosticBiopsy,
      scheduled_now (fst e) (sim_sequence sim + 2) toClinicalDiagnosticBiopsy,
      scheduled_now (fst e) (sim_sequence sim + 3) toTreatment]"
    by blast
  have ok': "queue_ok sim'" using st by simp
  let ?es = "map fst (run_trace (run_loop fuel' ?P sim' w'))"
  let ?T = "scheduled_now (fst e) (sim_sequence sim + 3) toTreatment"
  have first: "dispatched_before (scheduled_now (fst e) (sim_sequence sim + i) toClinicalDiagnosticBiopsy) ?T ?es"
    if "?T \<in> set ?es" "i < 3" for i
  proof (rule pending_dispatched_first [where P = "\<lambda>x. msg_kind x = event_short toClinicalDiagnosticBiopsy"])
    show "\<And>w t m w' cmds pred x. ?P w t m = Inr (w', cmds) \<Longrightarrow> RemoveEvent pred \<in> set cmds \<Longrightarrow>
        msg_kind x = event_short toClinicalDiagnosticBiopsy \<Longrightarrow> \<not> pred x"
      by (rule fhcrc_keeps_biopsies)
    show "queue_ok sim'" by (rule ok')
    show "scheduled_now (fst e) (sim_sequence sim + i) toClinicalDiagnosticBiopsy \<in> set (sim_queue sim')"
    proof -
      from that(2) have "i = 0 \<or> i = 1 \<or> i = 2" by arith
      then show ?thesis using q by auto
    qed
    show "msg_kind (snd (snd (scheduled_now (fst e) (sim_sequence sim + i) toClinicalDiagnosticBiopsy))) =
        event_short toClinicalDiagnosticBiopsy"
      by (simp add: scheduled_now_def)
    show "?T \<in> set ?es" by (rule that(1))
    show "entry_less (scheduled_now (fst e) (sim_sequence sim + i) toClinicalDiagnosticBiopsy) ?T"
      using that(2) by (simp add: scheduled_now_def)
  qed
  show "let t = fst e;
             n = sim_sequence sim;
             es = map fst (run_trace (run_loop fuel' (process_event (FhcrcPerson_handleMessage env)) sim' w'))
         in (\<exists>q. sim_queue sim' = q @
               [scheduled_now t n toClinicalDiagnosticBiopsy,
                scheduled_now t (n + 1) toClinicalDiagnosticBiopsy,
                scheduled_now t (n + 2) toClinicalDiagnosticBiopsy,
                scheduled_now t (n + 3) toTreatment]) \<and>
            (scheduled_now t (n + 3) toTreatment \<in> set es \<longrightarrow>
               dispatched_before (scheduled_now t n toClinicalDiagnosticBiopsy)
                 (scheduled_now t (n + 3) toTreatment) es \<and>
               dispatched_before (scheduled_now t (n + 1) toClinicalDiagnosticBiopsy)
                 (scheduled_now t (n + 3) toTreatment) es \<and>
               dispatched_before (scheduled_now t (n + 2) toClinicalDiagnosticBiopsy)
                 (scheduled_now t (n + 3) toTreatment) es)"
    unfolding Let_def using q first [of 0] first [of 1] first [of 2] by simp
qed


theorem fifo_dispatch_witness:
  "sorted_wrt entry_less (map fst (run_trace (run_simulation 5
       (process_event (FhcrcPerson_handleMessage example_env))
       (diagnosis_pending\<lparr>sim_running := True\<rparr>) (example_globals, example_person)))) \<and>
   (\<exists>e sim' w'.
      sim_step (process_event (FhcrcPerson_handleMessage example_env))
        (diagnosis_pending\<lparr>sim_running := True\<rparr>) (example_globals, example_person) =
        Dispatched e sim' w' \<and>
      fst e = 60 \<and> msg_kind (snd (snd e)) = event_short toClinicalDiagnosis \<and>
      scheduled_now 60 4 toTreatment \<in> set (map fst (run_trace (run_loop 4
         (process_event (FhcrcPerson_handleMessage example_env)) sim' w'))) \<and>
      dispatched_before (scheduled_now 60 1 toClinicalDiagnosticBiopsy) (scheduled_now 60 4 toTreatment)
        (map fst (run_trace (run_loop 4 (process_event (FhcrcPerson_handleMessage example_env)) sim' w'))) \<and>
      dispatched_before (scheduled_now 60 2 toClinicalDiagnosticBiopsy) (scheduled_now 60 4 toTreatment)
        (map fst (run_trace (run_loop 4 (process_event (FhcrcPerson_handleMessage example_env)) sim' w'))) \<and>
      dispatched_before (scheduled_now 60 3 toClinicalDiagnosticBiopsy) (scheduled_now 60 4 toTreatment)
        (map fst (run_trace (run_loop 4 (process_event (FhcrcPerson_handleMessage example_env)) sim' w'))))"
proof -
  let ?P = "process_event (FhcrcPerson_handleMessage example_env)"
  let ?sim = "diagnosis_pending\<lparr>sim_running := True\<rparr>"
  let ?w = "(example_globals, example_person)"
  have ok: "queue_ok ?sim" by (simp add: queue_ok_def diagnosis_pending_def)
  have seq: "sim_sequence ?sim = 1" by (simp add: diagnosis_pending_def)
  have "\<exists>e sim' w'. sim_step ?P ?sim ?w = Dispatched e sim' w' \<and> fst e = 60 \<and>
      msg_kind (snd (snd e)) = event_short toClinicalDiagnosis \<and>
      scheduled_now 60 4 toTreatment \<in> set (map fst (run_trace (run_loop 4 ?P sim' w')))"
    by (simp add: eval_nat_numeral sim_step_def diagnosis_pending_def pop_min_def
      process_event_def FhcrcPerson_handleMessage_def example_globals_def example_person_def
      y_def ymean_def example_env_def handle_kind_def Let_def
      add_def lower_bound_def deref_def iter_dec_def add_loop.simps add_body_def
      map_incr_def lookup0_def RemoveKind_def schedule_kind_def remove_event_def
      cMessageKindEq_def scheduleAt_def self_signal_event_def cMessage_new_def utility_dip_def
      schedule_utility_change_def handle_biopsy_def handle_treatment_def calculate_treatment_def
      calculate_survival_def bounds_def age_set_of_def set_lower_bound_def survival_ustar_def
      scheduled_now_def)
  then obtain e sim' w' where st: "sim_step ?P ?sim ?w = Dispatched e sim' w'" and t: "fst e = 60"
    and k: "msg_kind (snd (snd e)) = event_short toClinicalDiagnosis"
    and tr: "scheduled_now 60 4 toTreatment \<in> set (map fst (run_trace (run_loop 4 ?P sim' w')))"
    by blast
  note main = fifo_dispatch [OF ok, of 5 ?P ?w example_env ?w 4]
  note srt = conjunct1 [OF main]
  note step = conjunct2 [OF main, rule_format, OF conjI [OF st k], unfolded Let_def seq t]
  have tr': "scheduled_now 60 (1 + 3) toTreatment \<in> set (map fst (run_trace (run_loop 4 ?P sim' w')))"
    using tr by simp
  note bf = conjunct2 [OF step, rule_format, OF tr']
  have n: "(1::nat) + 1 = 2" "(1::nat) + 2 = 3" "(1::nat) + 3 = 4" by simp_all
  have "sim_step ?P ?sim ?w = Dispatched e sim' w' \<and> fst e = 60 \<and>
      msg_kind (snd (snd e)) = event_short toClinicalDiagnosis \<and>
      scheduled_now 60 4 toTreatment \<in> set (map fst (run_trace (run_loop 4 ?P sim' w'))) \<and>
      dispatched_before (scheduled_now 60 1 toClinicalDiagnosticBiopsy) (scheduled_now 60 4 toTreatment)
        (map fst (run_trace (run_loop 4 ?P sim' w'))) \<and>
      dispatched_before (scheduled_now 60 2 toClinicalDiagnosticBiopsy) (scheduled_now 60 4 toTreatment)
        (map fst (run_trace (run_loop 4 ?P sim' w'))) \<and>
      dispatched_before (scheduled_now 60 3 toClinicalDiagnosticBiopsy) (scheduled_now 60 4 toTreatment)
        (map fst (run_trace (run_loop 4 ?P sim' w')))"
    using st t k tr bf [unfolded n] by blast
  then show ?thesis using srt by blast
qed

section \<open>Deaths of an individual\<close>

subsection \<open>The kernel after \<open>stop_simulation\<close>\<close>















subsection \<open>The illness-death run\<close>










subsection \<open>A run of the cancer model that does not end\<close>

lemma short_event_simps3 [simp]:
  "short_event 4 = Some toOtherDeath" "short_event 17 = Some toUtility"
  by (simp_all add: short_event_def all_events_def)

lemma short_event_simps4 [simp]:
  "short_event 5 = Some toScreen"
  by (simp_all add: short_event_def all_events_def)







subsection \<open>C4: one death per individual\<close>






section \<open>previousEventTime\<close>











end
